theory Spec2Isabelle
  imports Main "HOL-Library.Sublist"
begin

section \<open>Python strings\<close>

text \<open>
  Paths are Python \<open>str\<close> values, modelled as \<open>string\<close> (a list of characters).
  The separator of the source is the backslash; the foreign separator is the slash.
\<close>

definition sep :: string where
  "sep = [CHR 0x5C]"

definition altsep :: string where
  "altsep = ''/''"

text \<open>\<open>s.startswith(p)\<close>, \<open>s.endswith(p)\<close> and \<open>sub in s\<close>.\<close>

definition startswith :: "string \<Rightarrow> string \<Rightarrow> bool" where
  "startswith s p = prefix p s"

definition endswith :: "string \<Rightarrow> string \<Rightarrow> bool" where
  "endswith s p = suffix p s"

fun contains :: "string \<Rightarrow> string \<Rightarrow> bool" where
  "contains sub [] = (sub = [])"
| "contains sub (c # cs) = (prefix sub (c # cs) \<or> contains sub cs)"

text \<open>
  \<open>str.lower()\<close> on ASCII text: the letters A to Z are mapped to a to z, every other
  character is kept.
\<close>

definition lower_char :: "char \<Rightarrow> char" where
  "lower_char c =
     (let n = (of_char c :: nat) in if 65 \<le> n \<and> n \<le> 90 then char_of (n + 32) else c)"

definition lower :: "string \<Rightarrow> string" where
  "lower s = map lower_char s"

text \<open>
  \<open>s.replace(old, new)\<close>: every occurrence of \<open>old\<close>, found from the left and not
  overlapping, is replaced. With an empty \<open>old\<close> Python puts \<open>new\<close> before every
  character and at the end.
\<close>

function replace :: "string \<Rightarrow> string \<Rightarrow> string \<Rightarrow> string" where
  "replace old new s =
     (if old = [] then new @ concat (map (\<lambda>c. c # new) s)
      else if s = [] then []
      else if prefix old s then new @ replace old new (drop (length old) s)
      else hd s # replace old new (tl s))"
  by pat_completeness auto
termination
  by (relation "measure (\<lambda>(old, new, s). length s)") (auto simp: neq_Nil_conv)

declare replace.simps [simp del]

text \<open>\<open>str(n)\<close> for an integer: decimal digits, with a minus sign when negative.\<close>

definition digit_char :: "nat \<Rightarrow> char" where
  "digit_char d = ''0123456789'' ! d"

fun str_nat :: "nat \<Rightarrow> string" where
  "str_nat n = (if n < 10 then [digit_char n] else str_nat (n div 10) @ [digit_char (n mod 10)])"

declare str_nat.simps [simp del]

definition str_int :: "int \<Rightarrow> string" where
  "str_int i = (if i < 0 then ''-'' @ str_nat (nat (- i)) else str_nat (nat i))"

section \<open>Errors\<close>

text \<open>
  Every exception the modelled code can raise is a value. \<open>SanguinicError\<close> carries its
  message, \<open>OSError\<close> the text of the operating system.
  An \<open>assert\<close> statement is modelled as the interpreter runs it by default: a false
  condition raises \<open>AssertionError\<close>.
\<close>

datatype error =
    AssertionError
  | SanguinicError string
  | OSError string
  | TypeError
  | AttributeError

text \<open>The text of an exception as the log messages print it.\<close>

definition error_text :: "error \<Rightarrow> string" where
  "error_text e = (case e of OSError t \<Rightarrow> t | SanguinicError t \<Rightarrow> t | _ \<Rightarrow> [])"

section \<open>The operating system seen by TmpPath\<close>

text \<open>
  The directory tree is the list of directories that exist, each written with its trailing
  separator. A removal can be refused by the system (a lock held by another process):
  \<open>rm_fails p\<close> is the number of coming removal attempts on \<open>p\<close> that will be refused.
  Every call to the system and to the logger is recorded in \<open>trace\<close>, oldest first.
\<close>

datatype event =
    IsDir string
  | RmTree string
  | MakeDirs string
  | Sleep nat
  | Warn string
  | Info string
  | Critical string

record world =
  dirs :: "string list"
  rm_fails :: "string \<Rightarrow> nat"
  strerror :: "string \<Rightarrow> string"
  trace :: "event list"

definition emit :: "event \<Rightarrow> world \<Rightarrow> world" where
  "emit e w = w\<lparr>trace := trace w @ [e]\<rparr>"

text \<open>\<open>os.path.isdir\<close>.\<close>

definition isdir :: "string \<Rightarrow> world \<Rightarrow> bool \<times> world" where
  "isdir p w = (p \<in> set (dirs w), emit (IsDir p) w)"

text \<open>
  \<open>shutil.rmtree\<close>: raises \<open>OSError\<close> when the directory does not exist or the removal is
  refused; otherwise the directory and everything below it are gone. A refused removal
  leaves the tree as it was and uses up one of the refusals.
\<close>

definition rmtree :: "string \<Rightarrow> world \<Rightarrow> (error + unit) \<times> world" where
  "rmtree p w =
     (let w1 = emit (RmTree p) w in
      if p \<notin> set (dirs w1) then (Inl (OSError (strerror w1 p)), w1)
      else if 0 < rm_fails w1 p
        then (Inl (OSError (strerror w1 p)), w1\<lparr>rm_fails := (rm_fails w1)(p := rm_fails w1 p - 1)\<rparr>)
      else (Inr (), w1\<lparr>dirs := filter (\<lambda>d. \<not> prefix p d) (dirs w1)\<rparr>))"

text \<open>
  \<open>os.makedirs\<close> (without \<open>exist_ok\<close>): raises when the directory exists, otherwise
  creates it with its missing parents.
\<close>

definition parents :: "string \<Rightarrow> string list" where
  "parents p = filter (\<lambda>q. q \<noteq> [] \<and> endswith q sep) (prefixes p)"

definition makedirs :: "string \<Rightarrow> world \<Rightarrow> (error + unit) \<times> world" where
  "makedirs p w =
     (let w1 = emit (MakeDirs p) w in
      if p \<in> set (dirs w1) then (Inl (OSError (strerror w1 p)), w1)
      else (Inr (), w1\<lparr>dirs := dirs w1 @ filter (\<lambda>q. q \<notin> set (dirs w1)) (parents p)\<rparr>))"

section \<open>common.py: abort_if_not\<close>

text \<open>
  \<open>abort_if_not(cond, f)\<close> raises \<open>SanguinicError\<close> whatever the interpreter mode. The
  message is \<open>abort_if_not() failed\<close>, followed by a colon and \<open>f()\<close> when \<open>f\<close> is given.
  The line it sends to the logger first ends with the caller's line number, read from the
  interpreter's stack; the model records the message without that suffix.
\<close>

definition abort_msg :: "string option \<Rightarrow> string" where
  "abort_msg f = ''abort_if_not() failed'' @ (case f of None \<Rightarrow> [] | Some m \<Rightarrow> '':'' @ m)"

definition abort_if_not :: "bool \<Rightarrow> string option \<Rightarrow> error + unit" where
  "abort_if_not cond f = (if \<not> cond then Inl (SanguinicError (abort_msg f)) else Inr ())"

section \<open>common.py: TmpPath\<close>

definition ADDED_FOLDER :: string where
  "ADDED_FOLDER = ''JBSLtet9''"

definition MAX_RMTREE_RETRIES :: int where
  "MAX_RMTREE_RETRIES = 3"

definition MAX_RESERVE_FOLDERS :: nat where
  "MAX_RESERVE_FOLDERS = 10"

text \<open>The marker segment that the destructive operations look for.\<close>

definition marker_segment :: string where
  "marker_segment = sep @ ADDED_FOLDER @ sep"

text \<open>\<open>TmpPath.__init__\<close>: the object is its field \<open>tmpdir\<close>.\<close>

definition TmpPath_init :: "string \<Rightarrow> error + string" where
  "TmpPath_init basetmpdir =
     (if \<not> endswith basetmpdir sep then Inl AssertionError
      else Inr (basetmpdir @ ADDED_FOLDER @ sep))"

definition remove_msg :: "string \<Rightarrow> error \<Rightarrow> string" where
  "remove_msg path e = ''Error removing '' @ path @ '': '' @ error_text e"

text \<open>The reserve folder tried at round \<open>i\<close> of the loop in \<open>__enter__\<close>.\<close>

definition reservefolder :: "string \<Rightarrow> nat \<Rightarrow> string" where
  "reservefolder tmpdir i = tmpdir @ ''_'' @ str_nat i @ sep"

text \<open>
  The \<open>for i in range(MAX_RESERVE_FOLDERS)\<close> loop, over the rounds still to run. It
  returns the chosen folder (\<open>ok\<close> is true) or nothing (\<open>ok\<close> is false).
\<close>

fun reserve_loop :: "string \<Rightarrow> nat list \<Rightarrow> world \<Rightarrow> string option \<times> world" where
  "reserve_loop tmpdir [] w = (None, w)"
| "reserve_loop tmpdir (i # rounds) w =
     (let r = reservefolder tmpdir i;
          (ex, w1) = isdir r w
      in if \<not> ex then (Some r, w1)
         else (case rmtree r w1 of
                 (Inr u, w2) \<Rightarrow> (Some r, w2)
               | (Inl e2, w2) \<Rightarrow>
                   reserve_loop tmpdir rounds
                     (emit (Warn (remove_msg r e2)) w2)))"

text \<open>\<open>TmpPath.__enter__\<close>: returns the new value of \<open>tmpdir\<close>, or the exception.\<close>

definition TmpPath_enter :: "string \<Rightarrow> world \<Rightarrow> (error + string) \<times> world" where
  "TmpPath_enter tmpdir w =
     (let (ex, w1) = isdir tmpdir w;
          (res, w2) =
            (if \<not> ex then (Inr tmpdir, w1)
             else (case rmtree tmpdir w1 of
                     (Inr u, w2) \<Rightarrow> (Inr tmpdir, w2)
                   | (Inl e, w2) \<Rightarrow>
                       (let w3 = emit (Warn (remove_msg tmpdir e)) w2;
                            (chosen, w4) = reserve_loop tmpdir [0..<MAX_RESERVE_FOLDERS] w3
                        in case chosen of
                             None \<Rightarrow>
                               (Inl (SanguinicError (abort_msg None)),
                                emit (Critical (abort_msg None)) w4)
                           | Some r \<Rightarrow>
                               (Inr r, emit (Info (''Will use '' @ r @ '' as tmpdir'')) w4))))
      in case res of
           Inl e \<Rightarrow> (Inl e, w2)
         | Inr d \<Rightarrow>
             (case makedirs d w2 of
                (Inl e, w3) \<Rightarrow> (Inl e, w3)
              | (Inr u, w3) \<Rightarrow> (Inr d, w3)))"

text \<open>\<open>TmpPath.tmp_in_tmp\<close>.\<close>

definition tmp_in_tmp :: "string \<Rightarrow> string \<Rightarrow> int \<Rightarrow> error + string" where
  "tmp_in_tmp tmpbase pfx num =
     (if \<not> endswith tmpbase sep then Inl AssertionError
      else if \<not> contains marker_segment tmpbase then Inl AssertionError
      else Inr (tmpbase @ pfx @ str_int num @ sep))"

definition retry_msg :: "string \<Rightarrow> error \<Rightarrow> int \<Rightarrow> string" where
  "retry_msg tmppath e nretries =
     ''Error trying to remove temp tree '' @ tmppath @ '': '' @ error_text e @
     ''. Will retry in 1 sec, '' @ str_int nretries @ '' retries left''"

definition giveup_msg :: "string \<Rightarrow> error \<Rightarrow> string" where
  "giveup_msg tmppath e =
     ''Error trying to remove temp tree '' @ tmppath @ '': '' @ error_text e @
     ''. Will not retry, should be removed on restart''"

text \<open>
  The \<open>while True\<close> loop of \<open>rm_tmp_tree\<close>, entered with the current \<open>nretries\<close>. It
  returns normally on every path.
\<close>

function rm_loop :: "int \<Rightarrow> string \<Rightarrow> world \<Rightarrow> world" where
  "rm_loop nretries tmppath w =
     (let n = nretries - 1 in
      case rmtree tmppath w of
        (Inr u, w1) \<Rightarrow> w1
      | (Inl e, w1) \<Rightarrow>
          if n \<le> 0 then emit (Warn (giveup_msg tmppath e)) w1
          else rm_loop n tmppath (emit (Sleep 1) (emit (Warn (retry_msg tmppath e n)) w1)))"
  by pat_completeness auto
termination
  by (relation "measure (\<lambda>(n, p, w). nat n)") auto

declare rm_loop.simps [simp del]

text \<open>\<open>TmpPath.rm_tmp_tree\<close>.\<close>

definition rm_tmp_tree :: "string \<Rightarrow> world \<Rightarrow> (error + unit) \<times> world" where
  "rm_tmp_tree tmppath w =
     (if \<not> contains marker_segment tmppath then (Inl AssertionError, w)
      else (Inr (), rm_loop MAX_RMTREE_RETRIES tmppath w))"

text \<open>
  \<open>TmpPath.__exit__\<close>: the tree is removed, then the exception of the enclosing block,
  when there is one, is raised again.
\<close>

definition TmpPath_exit :: "string \<Rightarrow> error option \<Rightarrow> world \<Rightarrow> (error + unit) \<times> world" where
  "TmpPath_exit tmpdir exc_val w =
     (case rm_tmp_tree tmpdir w of
        (Inl e, w1) \<Rightarrow> (Inl e, w1)
      | (Inr u, w1) \<Rightarrow> (case exc_val of Some e \<Rightarrow> (Inl e, w1) | None \<Rightarrow> (Inr (), w1)))"

section \<open>common.py: normalized paths\<close>

definition to_short_path :: "string \<Rightarrow> string \<Rightarrow> error + string" where
  "to_short_path base path =
     (if \<not> startswith path base then Inl AssertionError
      else Inr (drop (length base) path))"

definition normalize_file_name :: "string \<Rightarrow> error + string" where
  "normalize_file_name fname =
     (if \<not> (\<not> contains sep fname \<and> \<not> contains altsep fname) then Inl AssertionError
      else Inr (lower fname))"

text \<open>
  The values of a parsed JSON configuration, which are also what \<open>repr\<close> is applied to
  in the error messages.
\<close>

datatype json =
    JNull
  | JBool bool
  | JNum int
  | JStr string
  | JList "json list"
  | JObj "(string \<times> json) list"

text \<open>
  The functions of \<open>os.path\<close> and the built-in \<open>repr\<close> belong to the interpreter and the
  platform, not to the repository: the model takes them as parameters. \<open>split_head\<close> is
  \<open>os.path.split(p)[0]\<close>.
\<close>

record os_env =
  abspath :: "string \<Rightarrow> string"
  isabs :: "string \<Rightarrow> bool"
  split_head :: "string \<Rightarrow> string"
  repr :: "json \<Rightarrow> string"

definition normalize_dir_path :: "os_env \<Rightarrow> string \<Rightarrow> error + string" where
  "normalize_dir_path env path =
     (let p = abspath env path in
      if contains altsep p then Inl AssertionError
      else if endswith p sep then Inl AssertionError
      else Inr (lower p @ sep))"

definition is_normalized_dir_path :: "os_env \<Rightarrow> string \<Rightarrow> bool" where
  "is_normalized_dir_path env path = (path = lower (abspath env path) @ sep)"

definition normalize_file_path :: "os_env \<Rightarrow> string \<Rightarrow> error + string" where
  "normalize_file_path env path =
     (if \<not> (\<not> endswith path sep \<and> \<not> endswith path altsep) then Inl AssertionError
      else let p = abspath env path in
        if contains altsep p then Inl AssertionError
        else Inr (lower p))"

definition is_normalized_file_path :: "os_env \<Rightarrow> string \<Rightarrow> bool" where
  "is_normalized_file_path env path = (path = lower (abspath env path))"

section \<open>folders.py: resolution of configured paths\<close>

text \<open>
  The parsed configuration is a Python dict from strings to JSON values; it keeps the order
  of its keys, so it is an association list (a dict has no key twice).
\<close>

type_synonym config = "(string \<times> json) list"

definition normalize_config_dir_path :: "os_env \<Rightarrow> string \<Rightarrow> string \<Rightarrow> error + string" where
  "normalize_config_dir_path env path configdir =
     (if isabs env path then normalize_dir_path env path
      else normalize_dir_path env (configdir @ path))"

text \<open>
  The \<open>for key, val in config.items()\<close> loop of \<open>_config_dir_path\<close>, threading \<open>path\<close>
  and \<open>replaced\<close>.
\<close>

fun subst_keys :: "config \<Rightarrow> string \<Rightarrow> bool \<Rightarrow> string \<times> bool" where
  "subst_keys [] path replaced = (path, replaced)"
| "subst_keys ((key, val) # items) path replaced =
     (case val of
        JStr v \<Rightarrow>
          (let newpath = replace (''{'' @ key @ ''}'') v path in
           if newpath \<noteq> path then subst_keys items newpath True
           else subst_keys items path replaced)
      | _ \<Rightarrow> subst_keys items path replaced)"

text \<open>
  \<open>_config_dir_path\<close> calls itself with no bound: a call that never returns has the value
  \<open>None\<close>.
\<close>

partial_function (option) config_dir_path ::
    "os_env \<Rightarrow> string \<Rightarrow> string \<Rightarrow> config \<Rightarrow> (error + string) option" where
  "config_dir_path env path configdir config =
     (case normalize_config_dir_path env path configdir of
        Inl e \<Rightarrow> Some (Inl e)
      | Inr p0 \<Rightarrow>
          (let p1 = replace ''{CONFIG-DIR}'' configdir p0;
               r = subst_keys config p1 False
           in if snd r then config_dir_path env (fst r) configdir config
              else Some (Inr (fst r))))"

text \<open>
  \<open>_normalize_mo2_dir_path\<close>. The message of the error ends with \<open>repr(path)\<close>.
\<close>

definition normalize_mo2_dir_path :: "os_env \<Rightarrow> string \<Rightarrow> string \<Rightarrow> error + string" where
  "normalize_mo2_dir_path env path mo2dir =
     (case (if isabs env path then normalize_dir_path env path
            else normalize_dir_path env (mo2dir @ path)) of
        Inl e \<Rightarrow> Inl e
      | Inr out \<Rightarrow>
          (case abort_if_not (startswith out mo2dir)
                  (Some (''expected path within mo2, got '' @ repr env (JStr path))) of
             Inl e \<Rightarrow> Inl e
           | Inr u \<Rightarrow> Inr out))"

section \<open>folders.py: Folders\<close>

record Folders =
  config_dir :: string
  mo2_dir :: string
  download_dirs :: "string list"
  ignore_dirs :: "string list"
  cache_dir :: string
  tmp_dir :: string
  github_dir :: string
  own_mod_names :: "string list"

text \<open>
  Results of code that can raise or run forever: \<open>None\<close> is a call that never returns,
  \<open>Some (Inl e)\<close> the exception \<open>e\<close>.
\<close>

definition bind_res :: "(error + 'a) option \<Rightarrow> ('a \<Rightarrow> (error + 'b) option) \<Rightarrow> (error + 'b) option" where
  "bind_res m f = (case m of None \<Rightarrow> None | Some (Inl e) \<Rightarrow> Some (Inl e) | Some (Inr x) \<Rightarrow> f x)"

text \<open>A list comprehension whose element expression can raise: it stops at the first exception.\<close>

fun map_sum_list :: "('a \<Rightarrow> error + 'b) \<Rightarrow> 'a list \<Rightarrow> error + 'b list" where
  "map_sum_list f [] = Inr []"
| "map_sum_list f (x # xs) =
     (case f x of
        Inl e \<Rightarrow> Inl e
      | Inr y \<Rightarrow> (case map_sum_list f xs of Inl e \<Rightarrow> Inl e | Inr ys \<Rightarrow> Inr (y # ys)))"

fun map_res_list :: "('a \<Rightarrow> (error + 'b) option) \<Rightarrow> 'a list \<Rightarrow> (error + 'b list) option" where
  "map_res_list f [] = Some (Inr [])"
| "map_res_list f (x # xs) =
     bind_res (f x) (\<lambda>y. bind_res (map_res_list f xs) (\<lambda>ys. Some (Inr (y # ys))))"

text \<open>
  A value of the configuration used where the code expects a \<open>str\<close>: \<open>os.path.isabs\<close>
  raises \<open>TypeError\<close> on anything else.
\<close>

definition config_dir_path_json ::
    "os_env \<Rightarrow> json \<Rightarrow> string \<Rightarrow> config \<Rightarrow> (error + string) option" where
  "config_dir_path_json env v configdir config =
     (case v of JStr s \<Rightarrow> config_dir_path env s configdir config | _ \<Rightarrow> Some (Inl TypeError))"

definition normalize_mo2_dir_path_json :: "os_env \<Rightarrow> json \<Rightarrow> string \<Rightarrow> error + string" where
  "normalize_mo2_dir_path_json env v mo2dir =
     (case v of JStr s \<Rightarrow> normalize_mo2_dir_path env s mo2dir | _ \<Rightarrow> Inl TypeError)"

definition DEFAULT_IGNORES :: "string list" where
  "DEFAULT_IGNORES =
     [''plugins'' @ sep @ ''data'' @ sep @ ''RootBuilder'',
      ''crashDumps'',
      ''logs'',
      ''webcache'',
      ''overwrite'' @ sep @ ''Root'' @ sep @ ''Logs'',
      ''overwrite'' @ sep @ ''ShaderCache'']"

text \<open>The \<open>for ignore in ignores\<close> loop of \<open>__init__\<close>, threading \<open>ignore_dirs\<close>.\<close>

fun ignores_loop :: "os_env \<Rightarrow> string \<Rightarrow> json list \<Rightarrow> string list \<Rightarrow> error + string list" where
  "ignores_loop env mo2dir [] acc = Inr acc"
| "ignores_loop env mo2dir (ignore # rest) acc =
     (if ignore = JStr ''{DEFAULT-IGNORES}''
      then (case map_sum_list (\<lambda>defignore. normalize_dir_path env (mo2dir @ defignore))
                   DEFAULT_IGNORES of
              Inl e \<Rightarrow> Inl e
            | Inr ds \<Rightarrow> ignores_loop env mo2dir rest (acc @ ds))
      else (case normalize_mo2_dir_path_json env ignore mo2dir of
              Inl e \<Rightarrow> Inl e
            | Inr d \<Rightarrow> ignores_loop env mo2dir rest (acc @ [d])))"

text \<open>
  \<open>normalize_file_name\<close> on an element of \<open>ownmods\<close>. On a list or a dict the two \<open>in\<close>
  tests of the assertion are membership tests and \<open>lower\<close> is missing; on the other
  values \<open>in\<close> raises.
\<close>

definition normalize_file_name_json :: "json \<Rightarrow> error + string" where
  "normalize_file_name_json v =
     (case v of
        JStr s \<Rightarrow> normalize_file_name s
      | JList xs \<Rightarrow>
          (if JStr sep \<in> set xs \<or> JStr altsep \<in> set xs then Inl AssertionError
           else Inl AttributeError)
      | JObj kvs \<Rightarrow>
          (if sep \<in> set (map fst kvs) \<or> altsep \<in> set (map fst kvs) then Inl AssertionError
           else Inl AttributeError)
      | _ \<Rightarrow> Inl TypeError)"

text \<open>What \<open>for om in v\<close> iterates over.\<close>

definition iterate_json :: "json \<Rightarrow> error + json list" where
  "iterate_json v =
     (case v of
        JList xs \<Rightarrow> Inr xs
      | JStr s \<Rightarrow> Inr (map (\<lambda>c. JStr [c]) s)
      | JObj kvs \<Rightarrow> Inr (map (\<lambda>kv. JStr (fst kv)) kvs)
      | _ \<Rightarrow> Inl TypeError)"

definition is_str :: "json \<Rightarrow> bool" where
  "is_str v = (case v of JStr s \<Rightarrow> True | _ \<Rightarrow> False)"

definition is_list :: "json \<Rightarrow> bool" where
  "is_list v = (case v of JList xs \<Rightarrow> True | _ \<Rightarrow> False)"

definition lift_sum :: "error + 'a \<Rightarrow> (error + 'a) option" where
  "lift_sum r = Some r"

text \<open>\<open>jsonconfig.get(key, default)\<close>.\<close>

definition config_get :: "config \<Rightarrow> string \<Rightarrow> json \<Rightarrow> json" where
  "config_get config key dflt = (case map_of config key of Some v \<Rightarrow> v | None \<Rightarrow> dflt)"

text \<open>The single quote, for the messages that contain one.\<close>

definition quote :: string where
  "quote = [CHR 0x27]"

text \<open>
  \<open>Folders.__init__\<close>, statement by statement, in three parts. The first part sets
  \<open>config_dir\<close>, \<open>mo2_dir\<close> and \<open>download_dirs\<close>.
\<close>

definition init_roots ::
    "os_env \<Rightarrow> string \<Rightarrow> config \<Rightarrow> (error + string \<times> string \<times> string list) option" where
  "init_roots env jsonconfigfname jsonconfig =
     bind_res (lift_sum (normalize_dir_path env (split_head env jsonconfigfname))) (\<lambda>cd.
     bind_res (lift_sum (abort_if_not (map_of jsonconfig ''mo2'' \<noteq> None)
                 (Some (quote @ ''mo2'' @ quote @ '' must be present in config'')))) (\<lambda>_.
     let mo2 = the (map_of jsonconfig ''mo2'') in
     bind_res (lift_sum (abort_if_not (is_str mo2)
                 (Some (''config.'' @ quote @ ''mo2'' @ quote @ '' must be a string, got '' @
                    repr env mo2)))) (\<lambda>_.
     bind_res (config_dir_path_json env mo2 cd jsonconfig) (\<lambda>m.
     let dls0 = (case map_of jsonconfig ''downloads'' of
                   None \<Rightarrow> JList [JStr (m @ ''downloads'' @ sep)]
                 | Some v \<Rightarrow> v);
         dls = (if is_str dls0 then JList [dls0] else dls0)
     in
     bind_res (lift_sum (abort_if_not (is_list dls)
                 (Some (quote @ ''downloads'' @ quote @
                    '' in config must be a string or a list, got '' @ repr env dls)))) (\<lambda>_.
     bind_res (map_res_list (\<lambda>dl. config_dir_path_json env dl cd jsonconfig)
                 (case dls of JList xs \<Rightarrow> xs | _ \<Rightarrow> [])) (\<lambda>dds.
     Some (Inr (cd, m, dds))))))))"

text \<open>The second part sets \<open>ignore_dirs\<close>.\<close>

definition init_ignores :: "os_env \<Rightarrow> string \<Rightarrow> config \<Rightarrow> error + string list" where
  "init_ignores env m jsonconfig =
     (let ignores = config_get jsonconfig ''ignores'' (JList [JStr ''{DEFAULT-IGNORES}'']) in
      case abort_if_not (is_list ignores)
             (Some (quote @ ''ignores'' @ quote @ '' in config must be a list, got '' @
                repr env ignores)) of
        Inl e \<Rightarrow> Inl e
      | Inr u \<Rightarrow> ignores_loop env m (case ignores of JList xs \<Rightarrow> xs | _ \<Rightarrow> []) [])"

text \<open>The third part sets the remaining fields, and the object is complete.\<close>

definition Folders_init :: "os_env \<Rightarrow> string \<Rightarrow> config \<Rightarrow> (error + Folders) option" where
  "Folders_init env jsonconfigfname jsonconfig =
     bind_res (init_roots env jsonconfigfname jsonconfig) (\<lambda>(cd, m, dds).
     bind_res (lift_sum (init_ignores env m jsonconfig)) (\<lambda>igs.
     bind_res (config_dir_path_json env
                 (config_get jsonconfig ''cache'' (JStr (cd @ ''..'' @ sep @ ''sanguine.cache'' @ sep)))
                 cd jsonconfig) (\<lambda>cache.
     bind_res (config_dir_path_json env
                 (config_get jsonconfig ''tmp'' (JStr (cd @ ''..'' @ sep @ ''sanguine.tmp'' @ sep)))
                 cd jsonconfig) (\<lambda>tmp.
     bind_res (config_dir_path_json env (config_get jsonconfig ''github'' (JStr cd))
                 cd jsonconfig) (\<lambda>github.
     bind_res (lift_sum (iterate_json (config_get jsonconfig ''ownmods'' (JList [])))) (\<lambda>oms.
     bind_res (lift_sum (map_sum_list normalize_file_name_json oms)) (\<lambda>names.
     Some (Inr \<lparr>config_dir = cd, mo2_dir = m, download_dirs = dds, ignore_dirs = igs,
                cache_dir = cache, tmp_dir = tmp, github_dir = github,
                own_mod_names = names\<rparr>))))))))"

text \<open>
  \<open>Folders.all_mo2_own_mod_dirs\<close> is a generator: the model returns the paths it yields,
  in order, and the exception that ends it, if any.
\<close>

fun own_mod_dirs_loop :: "os_env \<Rightarrow> string \<Rightarrow> string list \<Rightarrow> string list \<times> error option" where
  "own_mod_dirs_loop env mo2dir [] = ([], None)"
| "own_mod_dirs_loop env mo2dir (ownmod # rest) =
     (let out = mo2dir @ ownmod in
      if \<not> is_normalized_dir_path env out then ([], Some AssertionError)
      else (case own_mod_dirs_loop env mo2dir rest of (ys, e) \<Rightarrow> (out # ys, e)))"

definition all_mo2_own_mod_dirs :: "os_env \<Rightarrow> Folders \<Rightarrow> string list \<times> error option" where
  "all_mo2_own_mod_dirs env f = own_mod_dirs_loop env (mo2_dir f) (own_mod_names f)"

section \<open>Reading a trace\<close>

text \<open>The paths given to \<open>isdir\<close>, \<open>rmtree\<close> and \<open>makedirs\<close> in a trace, in order.\<close>

fun isdir_calls :: "event list \<Rightarrow> string list" where
  "isdir_calls [] = []"
| "isdir_calls (e # es) = (case e of IsDir p \<Rightarrow> p # isdir_calls es | _ \<Rightarrow> isdir_calls es)"

fun rmtree_calls :: "event list \<Rightarrow> string list" where
  "rmtree_calls [] = []"
| "rmtree_calls (e # es) = (case e of RmTree p \<Rightarrow> p # rmtree_calls es | _ \<Rightarrow> rmtree_calls es)"

fun makedirs_calls :: "event list \<Rightarrow> string list" where
  "makedirs_calls [] = []"
| "makedirs_calls (e # es) = (case e of MakeDirs p \<Rightarrow> p # makedirs_calls es | _ \<Rightarrow> makedirs_calls es)"

text \<open>
  One refused attempt of \<open>rm_tmp_tree\<close> as it shows in the trace: the removal, the
  warning with the number of retries left, and the delay of one second.
\<close>

definition failed_attempt :: "string \<Rightarrow> world \<Rightarrow> int \<Rightarrow> event list" where
  "failed_attempt p w left = [RmTree p, Warn (retry_msg p (OSError (strerror w p)) left), Sleep 1]"

section \<open>The platform: Python's Windows path library\<close>

text \<open>
  The witnesses run the model on a concrete platform: the functions of \<open>ntpath\<close> as
  CPython 3.13 defines them (\<open>splitroot\<close>, \<open>normpath\<close>, \<open>isabs\<close>, \<open>join\<close>, \<open>split\<close>),
  \<open>abspath(path)\<close> as the library documents it, \<open>normpath(join(os.getcwd(), path))\<close>,
  and \<open>repr\<close> on JSON values made of ASCII text.
\<close>

definition upper_char :: "char \<Rightarrow> char" where
  "upper_char c =
     (let n = (of_char c :: nat) in if 97 \<le> n \<and> n \<le> 122 then char_of (n - 32) else c)"

definition upper :: "string \<Rightarrow> string" where
  "upper s = map upper_char s"

text \<open>\<open>p.replace(altsep, sep)\<close> and \<open>s.find(c, start)\<close>.\<close>

definition norm_seps :: "string \<Rightarrow> string" where
  "norm_seps s = map (\<lambda>c. if c = CHR ''/'' then CHR 0x5C else c) s"

definition find_from :: "char \<Rightarrow> nat \<Rightarrow> string \<Rightarrow> nat option" where
  "find_from c start s =
     (let r = drop start s in
      if c \<in> set r then Some (start + length (takeWhile (\<lambda>x. x \<noteq> c) r)) else None)"

definition nt_splitroot :: "string \<Rightarrow> string \<times> string \<times> string" where
  "nt_splitroot p =
     (let normp = norm_seps p in
      if take 1 normp = sep then
        (if take 1 (drop 1 normp) = sep then
           (let start = (if upper (take 8 normp) = sep @ sep @ ''?'' @ sep @ ''UNC'' @ sep
                         then 8 else 2)
            in case find_from (CHR 0x5C) start normp of
                 None \<Rightarrow> (p, [], [])
               | Some index \<Rightarrow>
                   (case find_from (CHR 0x5C) (index + 1) normp of
                      None \<Rightarrow> (p, [], [])
                    | Some index2 \<Rightarrow>
                        (take index2 p, take 1 (drop index2 p), drop (index2 + 1) p)))
         else ([], take 1 p, drop 1 p))
      else if take 1 (drop 1 normp) = '':'' then
        (if take 1 (drop 2 normp) = sep then (take 2 p, take 1 (drop 2 p), drop 3 p)
         else (take 2 p, [], drop 2 p))
      else ([], [], p))"

fun split_on :: "char \<Rightarrow> string \<Rightarrow> string list" where
  "split_on c [] = [[]]"
| "split_on c (x # xs) =
     (if x = c then [] # split_on c xs
      else (case split_on c xs of w # ws \<Rightarrow> (x # w) # ws | [] \<Rightarrow> [[x]]))"

fun join_with :: "string \<Rightarrow> string list \<Rightarrow> string" where
  "join_with s [] = []"
| "join_with s [x] = x"
| "join_with s (x # y # ys) = x @ s @ join_with s (y # ys)"

fun norm_comps :: "string \<Rightarrow> string list \<Rightarrow> string list \<Rightarrow> string list" where
  "norm_comps root done [] = rev done"
| "norm_comps root done (c # cs) =
     (if c = [] \<or> c = ''.'' then norm_comps root done cs
      else if c = ''..'' then
        (case done of
           d # ds \<Rightarrow> if d \<noteq> ''..'' then norm_comps root ds cs else norm_comps root (c # done) cs
         | [] \<Rightarrow> if root \<noteq> [] then norm_comps root [] cs else norm_comps root [c] cs)
      else norm_comps root (c # done) cs)"

definition nt_normpath :: "string \<Rightarrow> string" where
  "nt_normpath path =
     (case nt_splitroot (norm_seps path) of
        (drive, root, rest) \<Rightarrow>
          (let comps = norm_comps root [] (split_on (CHR 0x5C) rest);
               comps' = (if drive @ root = [] \<and> comps = [] then [''.''] else comps)
           in drive @ root @ join_with sep comps'))"

definition nt_isabs :: "string \<Rightarrow> bool" where
  "nt_isabs s =
     (let s3 = norm_seps (take 3 s) in
      prefix ('':'' @ sep) (drop 1 s3) \<or> prefix (sep @ sep) s3)"

definition nt_join :: "string \<Rightarrow> string \<Rightarrow> string" where
  "nt_join path p =
     (case nt_splitroot path of
        (result_drive, result_root, result_path) \<Rightarrow>
     (case nt_splitroot p of
        (p_drive, p_root, p_path) \<Rightarrow>
     (let (rd, rr, rp) =
        (if p_root \<noteq> [] then
           ((if p_drive \<noteq> [] \<or> result_drive = [] then p_drive else result_drive), p_root, p_path)
         else if p_drive \<noteq> [] \<and> p_drive \<noteq> result_drive \<and> lower p_drive \<noteq> lower result_drive
           then (p_drive, p_root, p_path)
         else
           (let d = (if p_drive \<noteq> [] \<and> p_drive \<noteq> result_drive then p_drive else result_drive);
                rp0 = (if result_path \<noteq> [] \<and> last result_path \<notin> set (sep @ altsep)
                       then result_path @ sep else result_path)
            in (d, result_root, rp0 @ p_path)))
      in if rp \<noteq> [] \<and> rr = [] \<and> rd \<noteq> [] \<and> last rd \<notin> set ('':'' @ sep @ altsep)
         then rd @ sep @ rp
         else rd @ rr @ rp)))"

definition nt_abspath :: "string \<Rightarrow> string \<Rightarrow> string" where
  "nt_abspath cwd path = nt_normpath (nt_join cwd path)"

definition nt_split_head :: "string \<Rightarrow> string" where
  "nt_split_head p =
     (case nt_splitroot p of
        (d, r, rest) \<Rightarrow>
          (let head = rev (dropWhile (\<lambda>c. c \<notin> set (sep @ altsep)) (rev rest))
           in d @ r @ rev (dropWhile (\<lambda>c. c \<in> set (sep @ altsep)) (rev head))))"

definition hex_digit :: "nat \<Rightarrow> char" where
  "hex_digit d = ''0123456789abcdef'' ! d"

definition repr_char :: "char \<Rightarrow> char \<Rightarrow> string" where
  "repr_char q c =
     (if c = q \<or> c = CHR 0x5C then [CHR 0x5C, c]
      else if c = CHR 0x09 then [CHR 0x5C, CHR ''t'']
      else if c = CHR 0x0A then [CHR 0x5C, CHR ''n'']
      else if c = CHR 0x0D then [CHR 0x5C, CHR ''r'']
      else if (of_char c :: nat) < 32 \<or> (of_char c :: nat) = 127
        then [CHR 0x5C, CHR ''x'', hex_digit ((of_char c) div 16), hex_digit ((of_char c) mod 16)]
      else [c])"

definition repr_str :: "string \<Rightarrow> string" where
  "repr_str s =
     (let q = (if CHR 0x27 \<in> set s \<and> CHR 0x22 \<notin> set s then CHR 0x22 else CHR 0x27)
      in q # concat (map (repr_char q) s) @ [q])"

fun py_repr :: "json \<Rightarrow> string" where
  "py_repr JNull = ''None''"
| "py_repr (JBool b) = (if b then ''True'' else ''False'')"
| "py_repr (JNum i) = str_int i"
| "py_repr (JStr s) = repr_str s"
| "py_repr (JList xs) = ''['' @ join_with '', '' (map py_repr xs) @ '']''"
| "py_repr (JObj kvs) =
     ''{'' @ join_with '', '' (map (\<lambda>kv. repr_str (fst kv) @ '': '' @ py_repr (snd kv)) kvs) @ ''}''"

definition nt_env :: "string \<Rightarrow> os_env" where
  "nt_env cwd = \<lparr>abspath = nt_abspath cwd, isabs = nt_isabs, split_head = nt_split_head, repr = py_repr\<rparr>"

text \<open>
  The spec's wording of step 2 of a pass, to compare with the loop above. The substitution
  replaces the placeholder of the config directory, then the placeholder of each
  string-valued key, in the order of the keys. A pass performs no substitution when none
  of these replacements changes the string.
\<close>

definition spec_subst_key :: "string \<times> json \<Rightarrow> string \<Rightarrow> string" where
  "spec_subst_key kv p = (case snd kv of JStr v \<Rightarrow> replace (''{'' @ fst kv @ ''}'') v p | _ \<Rightarrow> p)"

definition spec_substitute :: "string \<Rightarrow> config \<Rightarrow> string \<Rightarrow> string" where
  "spec_substitute configdir config p =
     foldl (\<lambda>q kv. spec_subst_key kv q) (replace ''{CONFIG-DIR}'' configdir p) config"

definition spec_no_substitution :: "string \<Rightarrow> config \<Rightarrow> string \<Rightarrow> bool" where
  "spec_no_substitution configdir config p \<longleftrightarrow>
     replace ''{CONFIG-DIR}'' configdir p = p \<and> list_all (\<lambda>kv. spec_subst_key kv p = p) config"

section \<open>Absolute paths and roots\<close>

text \<open>
  The notions used to state which normalized paths are normalized again to themselves.
  \<open>bs\<close> is the separator character. \<open>unc_start\<close> is the index from which \<open>splitroot\<close>
  looks for the end of the server name of a path that starts with two separators. A path is
  absolute when \<open>splitroot\<close> finds both a drive (or a share) and a root in it, and it is a
  root when nothing follows them. A component is ordinary when \<open>normpath\<close> keeps it: it is
  not empty, not \<open>.\<close> and not \<open>..\<close>, and holds no separator.
\<close>

abbreviation bs :: char where
  "bs \<equiv> CHR 0x5C"

definition unc_start :: "string \<Rightarrow> nat" where
  "unc_start p = (if upper (take 8 p) = sep @ sep @ ''?'' @ sep @ ''UNC'' @ sep then 8 else 2)"

definition absolute_path :: "string \<Rightarrow> bool" where
  "absolute_path q = (case nt_splitroot q of (d, r, t) \<Rightarrow> d \<noteq> [] \<and> r \<noteq> [])"

definition root_path :: "string \<Rightarrow> bool" where
  "root_path q = (case nt_splitroot q of (d, r, t) \<Rightarrow> t = [])"

definition ordinary :: "string \<Rightarrow> bool" where
  "ordinary c \<longleftrightarrow> c \<noteq> [] \<and> bs \<notin> set c \<and> c \<noteq> ''.'' \<and> c \<noteq> ''..''"

section \<open>Concrete inputs\<close>

text \<open>A base directory, its marker directory, and two states of the directory tree.\<close>

definition example_base :: string where
  "example_base = ''c:'' @ sep @ ''tmp'' @ sep"

definition example_tmpdir :: string where
  "example_tmpdir = example_base @ ADDED_FOLDER @ sep"

definition locked_world :: world where
  "locked_world =
     \<lparr>dirs = example_tmpdir # map (reservefolder example_tmpdir) [0..<MAX_RESERVE_FOLDERS],
      rm_fails = (\<lambda>p. 1), strerror = (\<lambda>p. ''Access is denied''), trace = []\<rparr>"

definition crowded_world :: world where
  "crowded_world =
     \<lparr>dirs = [example_base, example_tmpdir, reservefolder example_tmpdir 0],
      rm_fails = (\<lambda>p. if p = example_tmpdir \<or> p = reservefolder example_tmpdir 0 then 1 else 0),
      strerror = (\<lambda>p. ''Access is denied''), trace = []\<rparr>"

definition stale_world :: "nat \<Rightarrow> world" where
  "stale_world k =
     \<lparr>dirs = [example_base, example_tmpdir],
      rm_fails = (\<lambda>p. if p = example_tmpdir then k else 0),
      strerror = (\<lambda>p. ''Access is denied''), trace = []\<rparr>"

text \<open>
  A working directory, the platform with it, and the configuration of the spec's
  fixed-point example, \<open>{"mo2": "M\\", "x": "{mo2}sub\\"}\<close>, beside \<open>c:\cfg\\<close>.
\<close>

definition example_cwd :: string where
  "example_cwd = ''C:'' @ sep @ ''Work''"

definition example_env :: os_env where
  "example_env = nt_env example_cwd"

definition example_configdir :: string where
  "example_configdir = ''c:'' @ sep @ ''cfg'' @ sep"

definition example_config :: config where
  "example_config = [(''mo2'', JStr (''M'' @ sep)), (''x'', JStr (''{mo2}sub'' @ sep))]"

text \<open>
  A configuration file \<open>c:\cfg\rose.json\<close> with the mod-root \<open>c:\MO2\<close>: once with an
  ignore entry outside the mod-root, once with one owned mod.
\<close>

definition example_fname :: string where
  "example_fname = ''c:'' @ sep @ ''cfg'' @ sep @ ''rose.json''"


definition ownmods_config :: config where
  "ownmods_config =
     [(''mo2'', JStr (''c:'' @ sep @ ''MO2'')),
      (''ownmods'', JList [JStr ''MyPatch''])]"

section \<open>Properties\<close>

lemma contains_sublist: "contains sub s \<longleftrightarrow> sublist sub s"
  by (induction s) (simp_all add: sublist_Cons_right)

lemma emit_simps [simp]: "trace (emit e w) = trace w @ [e]" "dirs (emit e w) = dirs w"
  "rm_fails (emit e w) = rm_fails w" "strerror (emit e w) = strerror w"
  by (simp_all add: emit_def)

lemma isdir_calls_append [simp]: "isdir_calls (xs @ ys) = isdir_calls xs @ isdir_calls ys"
  by (induction xs) (auto split: event.splits)
lemma rmtree_calls_append [simp]: "rmtree_calls (xs @ ys) = rmtree_calls xs @ rmtree_calls ys"
  by (induction xs) (auto split: event.splits)
lemma makedirs_calls_append [simp]: "makedirs_calls (xs @ ys) = makedirs_calls xs @ makedirs_calls ys"
  by (induction xs) (auto split: event.splits)

lemma str_nat_nonempty [simp]: "str_nat n \<noteq> []" "[] \<noteq> str_nat n"
  by (subst str_nat.simps, simp)+

lemma digit_char_inj: "a < 10 \<Longrightarrow> b < 10 \<Longrightarrow> digit_char a = digit_char b \<Longrightarrow> a = b"
  unfolding digit_char_def
  by (subst (asm) nth_eq_iff_index_eq) simp_all

lemma str_nat_inj: "str_nat n = str_nat m \<Longrightarrow> n = m"
proof (induction n arbitrary: m rule: str_nat.induct)
  case (1 n)
  show ?case
  proof (cases "n < 10")
    case True
    with "1.prems" have "m < 10"
      by (subst (asm) str_nat.simps, subst (asm) (2) str_nat.simps)
         (auto simp: str_nat_nonempty split: if_splits)
    with True "1.prems" show ?thesis
      by (subst (asm) str_nat.simps, subst (asm) (2) str_nat.simps)
         (auto dest: digit_char_inj)
  next
    case False
    with "1.prems" have m: "\<not> m < 10"
      by (subst (asm) str_nat.simps, subst (asm) (2) str_nat.simps)
         (auto simp: str_nat_nonempty split: if_splits)
    with False "1.prems" have "str_nat (n div 10) = str_nat (m div 10)"
      and "digit_char (n mod 10) = digit_char (m mod 10)"
      by (subst (asm) str_nat.simps, subst (asm) (2) str_nat.simps, simp)+
    with "1.IH" [OF False] digit_char_inj [of "n mod 10" "m mod 10"]
    have "n div 10 = m div 10" "n mod 10 = m mod 10"
      by simp_all
    then show ?thesis by (metis div_mult_mod_eq)
  qed
qed

lemma reservefolder_inj: "reservefolder t i = reservefolder t j \<Longrightarrow> i = j"
  by (simp add: reservefolder_def str_nat_inj)

lemma reservefolder_neq: "reservefolder t i \<noteq> t"
  by (simp add: reservefolder_def)

lemma rmtree_refused:
  "p \<in> set (dirs w) \<Longrightarrow> 0 < rm_fails w p \<Longrightarrow>
   rmtree p w = (Inl (OSError (strerror w p)),
     w\<lparr>trace := trace w @ [RmTree p], rm_fails := (rm_fails w)(p := rm_fails w p - 1)\<rparr>)"
  by (simp add: rmtree_def emit_def Let_def)

lemma rmtree_missing:
  "p \<notin> set (dirs w) \<Longrightarrow>
   rmtree p w = (Inl (OSError (strerror w p)), w\<lparr>trace := trace w @ [RmTree p]\<rparr>)"
  by (simp add: rmtree_def emit_def Let_def)

lemma rmtree_done:
  "p \<in> set (dirs w) \<Longrightarrow> rm_fails w p = 0 \<Longrightarrow>
   rmtree p w = (Inr (),
     w\<lparr>trace := trace w @ [RmTree p], dirs := filter (\<lambda>d. \<not> prefix p d) (dirs w)\<rparr>)"
  by (simp add: rmtree_def emit_def Let_def)

lemma reserve_loop_skip:
  assumes "distinct pre"
    and "\<forall>i\<in>set pre. reservefolder t i \<in> set (dirs w) \<and> 0 < rm_fails w (reservefolder t i)"
  shows "\<exists>w'. reserve_loop t (pre @ rest) w = reserve_loop t rest w' \<and>
           dirs w' = dirs w \<and> strerror w' = strerror w \<and>
           (\<forall>q. q \<notin> reservefolder t ` set pre \<longrightarrow> rm_fails w' q = rm_fails w q) \<and>
           isdir_calls (trace w') = isdir_calls (trace w) @ map (reservefolder t) pre \<and>
           rmtree_calls (trace w') = rmtree_calls (trace w) @ map (reservefolder t) pre \<and>
           makedirs_calls (trace w') = makedirs_calls (trace w)"
  using assms
proof (induction pre arbitrary: w)
  case Nil
  show ?case by (rule exI [of _ w]) simp
next
  case (Cons i pre)
  let ?r = "reservefolder t i"
  let ?w2 = "emit (Warn (remove_msg ?r (OSError (strerror w ?r))))
               (emit (IsDir ?r) w\<lparr>trace := trace w @ [IsDir ?r, RmTree ?r],
                  rm_fails := (rm_fails w)(?r := rm_fails w ?r - 1)\<rparr>)"
  from Cons.prems have here: "?r \<in> set (dirs w)" "0 < rm_fails w ?r" by simp_all
  have step: "reserve_loop t ((i # pre) @ rest) w = reserve_loop t (pre @ rest) ?w2"
    using here by (simp add: isdir_def rmtree_refused emit_def Let_def)
  have "\<forall>j\<in>set pre. reservefolder t j \<in> set (dirs ?w2) \<and> 0 < rm_fails ?w2 (reservefolder t j)"
    using Cons.prems by (auto dest: reservefolder_inj)
  with Cons.IH [of ?w2] Cons.prems obtain w' where
    w': "reserve_loop t (pre @ rest) ?w2 = reserve_loop t rest w'"
      "dirs w' = dirs ?w2" "strerror w' = strerror ?w2"
      "\<forall>q. q \<notin> reservefolder t ` set pre \<longrightarrow> rm_fails w' q = rm_fails ?w2 q"
      "isdir_calls (trace w') = isdir_calls (trace ?w2) @ map (reservefolder t) pre"
      "rmtree_calls (trace w') = rmtree_calls (trace ?w2) @ map (reservefolder t) pre"
      "makedirs_calls (trace w') = makedirs_calls (trace ?w2)"
    by auto
  show ?case
    apply (rule exI [of _ w'])
    using step w' by (auto simp: emit_def)
qed


lemma parents_self: "endswith p sep \<Longrightarrow> p \<in> set (parents p)"
  by (auto simp: parents_def endswith_def sep_def)

lemma makedirs_fresh:
  "p \<notin> set (dirs w) \<Longrightarrow>
   makedirs p w = (Inr (), w\<lparr>trace := trace w @ [MakeDirs p],
       dirs := dirs w @ filter (\<lambda>q. q \<notin> set (dirs w)) (parents p)\<rparr>)"
  by (simp add: makedirs_def emit_def Let_def)

lemma reservefolder_endswith: "endswith (reservefolder t i) sep"
  by (simp add: reservefolder_def endswith_def suffix_def)

lemma enter_fallback:
  assumes "tmpdir \<in> set (dirs w)" "0 < rm_fails w tmpdir"
  shows "TmpPath_enter tmpdir w =
    (let w3 = emit (Warn (remove_msg tmpdir (OSError (strerror w tmpdir))))
                (w\<lparr>trace := trace w @ [IsDir tmpdir, RmTree tmpdir],
                   rm_fails := (rm_fails w)(tmpdir := rm_fails w tmpdir - 1)\<rparr>);
         (chosen, w4) = reserve_loop tmpdir [0..<MAX_RESERVE_FOLDERS] w3
     in case chosen of
          None \<Rightarrow> (Inl (SanguinicError (abort_msg None)), emit (Critical (abort_msg None)) w4)
        | Some r \<Rightarrow>
            (case makedirs r (emit (Info (''Will use '' @ r @ '' as tmpdir'')) w4) of
               (Inl e, w5) \<Rightarrow> (Inl e, w5)
             | (Inr u, w5) \<Rightarrow> (Inr r, w5)))"
  using assms
  by (simp add: TmpPath_enter_def isdir_def rmtree_refused emit_def Let_def
        split: prod.splits option.splits sum.splits)

text \<open>
  Claim C3. When the marker directory exists and its removal is refused, and each of the
  ten reserve folders exists and its removal is refused too, \<open>__enter__\<close> raises the
  \<open>SanguinicError\<close> of \<open>abort_if_not\<close>: no directory is created and none is handed out.
\<close>

theorem acquisition_fatal_when_all_locked:
  assumes "TmpPath_init basetmpdir = Inr tmpdir"
    and "tmpdir \<in> set (dirs w)" and "0 < rm_fails w tmpdir"
    and "\<forall>i<MAX_RESERVE_FOLDERS.
           reservefolder tmpdir i \<in> set (dirs w) \<and> 0 < rm_fails w (reservefolder tmpdir i)"
  shows "fst (TmpPath_enter tmpdir w) = Inl (SanguinicError ''abort_if_not() failed'') \<and>
         dirs (snd (TmpPath_enter tmpdir w)) = dirs w \<and>
         makedirs_calls (trace (snd (TmpPath_enter tmpdir w))) = makedirs_calls (trace w)"
proof -
  let ?w3 = "emit (Warn (remove_msg tmpdir (OSError (strerror w tmpdir))))
                (w\<lparr>trace := trace w @ [IsDir tmpdir, RmTree tmpdir],
                   rm_fails := (rm_fails w)(tmpdir := rm_fails w tmpdir - 1)\<rparr>)"
  have locked: "\<forall>i\<in>set [0..<MAX_RESERVE_FOLDERS].
      reservefolder tmpdir i \<in> set (dirs ?w3) \<and> 0 < rm_fails ?w3 (reservefolder tmpdir i)"
    using assms(4) by (simp add: reservefolder_neq)
  from reserve_loop_skip [OF _ locked, of "[]"] obtain w' where
    w': "reserve_loop tmpdir [0..<MAX_RESERVE_FOLDERS] ?w3 = (None, w')"
      "dirs w' = dirs ?w3" "makedirs_calls (trace w') = makedirs_calls (trace ?w3)"
    by auto
  show ?thesis
    using w' by (simp add: enter_fallback [OF assms(2,3)] abort_msg_def)
qed

text \<open>
  Claim C6, as the code has it. When the removal of the existing marker directory is
  refused, the reserve folders are \<open>base_dir + MARKER + separator + "_" + i + separator\<close>
  for \<open>i\<close> from 0 to 9: they lie inside the marker directory. They are examined in
  increasing order, and the workspace becomes the first one that does not exist or whose
  removal succeeds; it is then created.
\<close>

theorem reserve_slot_selection:
  assumes "TmpPath_init basetmpdir = Inr tmpdir"
    and "tmpdir \<in> set (dirs w)" and "0 < rm_fails w tmpdir"
    and "j < MAX_RESERVE_FOLDERS"
    and "\<forall>i<j. reservefolder tmpdir i \<in> set (dirs w) \<and> 0 < rm_fails w (reservefolder tmpdir i)"
    and "reservefolder tmpdir j \<notin> set (dirs w) \<or> rm_fails w (reservefolder tmpdir j) = 0"
  shows "fst (TmpPath_enter tmpdir w) = Inr (reservefolder tmpdir j) \<and>
         basetmpdir @ ADDED_FOLDER @ sep @ ''_'' @ str_nat j @ sep = reservefolder tmpdir j \<and>
         isdir_calls (trace (snd (TmpPath_enter tmpdir w))) =
           isdir_calls (trace w) @ tmpdir # map (reservefolder tmpdir) [0..<Suc j] \<and>
         rmtree_calls (trace (snd (TmpPath_enter tmpdir w))) =
           rmtree_calls (trace w) @ tmpdir # map (reservefolder tmpdir) [0..<j] @
             (if reservefolder tmpdir j \<in> set (dirs w) then [reservefolder tmpdir j] else []) \<and>
         makedirs_calls (trace (snd (TmpPath_enter tmpdir w))) =
           makedirs_calls (trace w) @ [reservefolder tmpdir j] \<and>
         reservefolder tmpdir j \<in> set (dirs (snd (TmpPath_enter tmpdir w)))"
proof -
  let ?r = "reservefolder tmpdir j"
  let ?w3 = "emit (Warn (remove_msg tmpdir (OSError (strerror w tmpdir))))
                (w\<lparr>trace := trace w @ [IsDir tmpdir, RmTree tmpdir],
                   rm_fails := (rm_fails w)(tmpdir := rm_fails w tmpdir - 1)\<rparr>)"
  have form: "basetmpdir @ ADDED_FOLDER @ sep @ ''_'' @ str_nat j @ sep = ?r"
    using assms(1) by (auto simp: TmpPath_init_def reservefolder_def split: if_splits)
  have split: "[0..<MAX_RESERVE_FOLDERS] = [0..<j] @ j # [Suc j..<MAX_RESERVE_FOLDERS]"
    using assms(4) by (metis le_add_diff_inverse less_imp_le_nat upt_add_eq_append upt_conv_Cons zero_le)
  have locked: "\<forall>i\<in>set [0..<j].
      reservefolder tmpdir i \<in> set (dirs ?w3) \<and> 0 < rm_fails ?w3 (reservefolder tmpdir i)"
    using assms(5) by (simp add: reservefolder_neq)
  from reserve_loop_skip [OF _ locked, of "j # [Suc j..<MAX_RESERVE_FOLDERS]"] obtain w' where
    w': "reserve_loop tmpdir [0..<MAX_RESERVE_FOLDERS] ?w3 =
           reserve_loop tmpdir (j # [Suc j..<MAX_RESERVE_FOLDERS]) w'"
      "dirs w' = dirs ?w3" "strerror w' = strerror ?w3"
      "\<forall>q. q \<notin> reservefolder tmpdir ` set [0..<j] \<longrightarrow> rm_fails w' q = rm_fails ?w3 q"
      "isdir_calls (trace w') = isdir_calls (trace ?w3) @ map (reservefolder tmpdir) [0..<j]"
      "rmtree_calls (trace w') = rmtree_calls (trace ?w3) @ map (reservefolder tmpdir) [0..<j]"
      "makedirs_calls (trace w') = makedirs_calls (trace ?w3)"
    using split by auto
  have notin: "?r \<notin> reservefolder tmpdir ` set [0..<j]"
    by (auto dest: reservefolder_inj)
  with w'(4) have fails: "rm_fails w' ?r = rm_fails w ?r"
    by (simp add: reservefolder_neq)
  show ?thesis
  proof (cases "?r \<in> set (dirs w)")
    case False
    let ?w4 = "emit (IsDir ?r) w'"
    let ?w5 = "emit (Info (''Will use '' @ ?r @ '' as tmpdir'')) ?w4"
    have "reserve_loop tmpdir (j # [Suc j..<MAX_RESERVE_FOLDERS]) w' = (Some ?r, ?w4)"
      using False w'(2) by (simp add: isdir_def Let_def)
    with w'(1) have loop: "reserve_loop tmpdir [0..<MAX_RESERVE_FOLDERS] ?w3 = (Some ?r, ?w4)"
      by simp
    have fresh: "?r \<notin> set (dirs ?w5)"
      using False w'(2) by simp
    have res: "TmpPath_enter tmpdir w =
        (Inr ?r, ?w5\<lparr>trace := trace ?w5 @ [MakeDirs ?r],
           dirs := dirs ?w5 @ filter (\<lambda>q. q \<notin> set (dirs ?w5)) (parents ?r)\<rparr>)"
      by (simp only: enter_fallback [OF assms(2,3)] Let_def loop prod.case option.case
            makedirs_fresh [OF fresh] sum.case)
    have "fst (TmpPath_enter tmpdir w) = Inr ?r \<and>
         isdir_calls (trace (snd (TmpPath_enter tmpdir w))) =
           isdir_calls (trace w) @ tmpdir # map (reservefolder tmpdir) [0..<Suc j] \<and>
         rmtree_calls (trace (snd (TmpPath_enter tmpdir w))) =
           rmtree_calls (trace w) @ tmpdir # map (reservefolder tmpdir) [0..<j] @
             (if ?r \<in> set (dirs w) then [?r] else []) \<and>
         makedirs_calls (trace (snd (TmpPath_enter tmpdir w))) =
           makedirs_calls (trace w) @ [?r] \<and>
         ?r \<in> set (dirs (snd (TmpPath_enter tmpdir w)))"
      unfolding res using False w'(5,6,7) fresh
      by (simp add: parents_self reservefolder_endswith)
    with form show ?thesis by blast
  next
    case True
    with assms(6) fails have z: "rm_fails w' ?r = 0" by simp
    let ?w1 = "emit (IsDir ?r) w'"
    have in1: "?r \<in> set (dirs ?w1)" "rm_fails ?w1 ?r = 0"
      using True w'(2) z by simp_all
    let ?w4 = "?w1\<lparr>trace := trace ?w1 @ [RmTree ?r],
                     dirs := filter (\<lambda>d. \<not> prefix ?r d) (dirs ?w1)\<rparr>"
    let ?w5 = "emit (Info (''Will use '' @ ?r @ '' as tmpdir'')) ?w4"
    have "reserve_loop tmpdir (j # [Suc j..<MAX_RESERVE_FOLDERS]) w' = (Some ?r, ?w4)"
      using True w'(2) by (simp add: isdir_def Let_def rmtree_done [OF in1])
    with w'(1) have loop: "reserve_loop tmpdir [0..<MAX_RESERVE_FOLDERS] ?w3 = (Some ?r, ?w4)"
      by simp
    have fresh: "?r \<notin> set (dirs ?w5)"
      by simp
    have res: "TmpPath_enter tmpdir w =
        (Inr ?r, ?w5\<lparr>trace := trace ?w5 @ [MakeDirs ?r],
           dirs := dirs ?w5 @ filter (\<lambda>q. q \<notin> set (dirs ?w5)) (parents ?r)\<rparr>)"
      by (simp only: enter_fallback [OF assms(2,3)] Let_def loop prod.case option.case
            makedirs_fresh [OF fresh] sum.case)
    have "fst (TmpPath_enter tmpdir w) = Inr ?r \<and>
         isdir_calls (trace (snd (TmpPath_enter tmpdir w))) =
           isdir_calls (trace w) @ tmpdir # map (reservefolder tmpdir) [0..<Suc j] \<and>
         rmtree_calls (trace (snd (TmpPath_enter tmpdir w))) =
           rmtree_calls (trace w) @ tmpdir # map (reservefolder tmpdir) [0..<j] @
             (if ?r \<in> set (dirs w) then [?r] else []) \<and>
         makedirs_calls (trace (snd (TmpPath_enter tmpdir w))) =
           makedirs_calls (trace w) @ [?r] \<and>
         ?r \<in> set (dirs (snd (TmpPath_enter tmpdir w)))"
      unfolding res using True w'(5,6,7) fresh
      by (simp add: parents_self reservefolder_endswith)
    with form show ?thesis by blast
  qed
qed

lemma contains_append: "contains sub s \<Longrightarrow> contains sub (a @ s @ b)"
  by (auto simp: contains_sublist sublist_def) (metis append.assoc)

lemma contains_marker_tmpdir: "TmpPath_init b = Inr t \<Longrightarrow> contains marker_segment t"
  by (auto simp: TmpPath_init_def marker_segment_def endswith_def suffix_def contains_sublist
       split: if_splits)

text \<open>The hypotheses of claim C3 hold in a tree where everything is locked.\<close>

theorem acquisition_fatal_witness:
  "TmpPath_init example_base = Inr example_tmpdir \<and>
   example_tmpdir \<in> set (dirs locked_world) \<and> 0 < rm_fails locked_world example_tmpdir \<and>
   list_all (\<lambda>i. reservefolder example_tmpdir i \<in> set (dirs locked_world) \<and>
                0 < rm_fails locked_world (reservefolder example_tmpdir i))
     [0..<MAX_RESERVE_FOLDERS] \<and>
   fst (TmpPath_enter example_tmpdir locked_world) = Inl (SanguinicError ''abort_if_not() failed'') \<and>
   dirs (snd (TmpPath_enter example_tmpdir locked_world)) = dirs locked_world"
proof -
  have 1: "TmpPath_init example_base = Inr example_tmpdir"
    by (simp add: TmpPath_init_def example_base_def example_tmpdir_def endswith_def suffix_def)
  have 2: "example_tmpdir \<in> set (dirs locked_world)" "0 < rm_fails locked_world example_tmpdir"
    by (simp_all add: locked_world_def)
  have 3: "\<forall>i<MAX_RESERVE_FOLDERS.
      reservefolder example_tmpdir i \<in> set (dirs locked_world) \<and>
      0 < rm_fails locked_world (reservefolder example_tmpdir i)"
    by (simp add: locked_world_def)
  from 3 have 4: "list_all (\<lambda>i. reservefolder example_tmpdir i \<in> set (dirs locked_world) \<and>
                0 < rm_fails locked_world (reservefolder example_tmpdir i))
     [0..<MAX_RESERVE_FOLDERS]"
    by (simp add: list_all_iff)
  from acquisition_fatal_when_all_locked [OF 1 2 3] 1 2 4 show ?thesis by simp
qed

lemma str_nat_0: "str_nat 0 = ''0''"
  by (subst str_nat.simps) (simp add: digit_char_def)

text \<open>
  Claim C6 as stated names the folders \<open>base_dir + MARKER + "_" + i + separator\<close>, beside
  the marker directory. With a locked marker directory under \<open>c:\tmp\\<close> the code
  examines and returns the folder \<open>_0\<close> inside the marker directory instead.
\<close>

theorem reserve_slot_counterexample:
  "TmpPath_init example_base = Inr example_tmpdir \<and>
   example_tmpdir \<in> set (dirs (stale_world 1)) \<and>
   fst (rmtree example_tmpdir (stale_world 1)) = Inl (OSError ''Access is denied'') \<and>
   fst (TmpPath_enter example_tmpdir (stale_world 1)) =
     Inr (example_base @ ADDED_FOLDER @ sep @ ''_0'' @ sep) \<and>
   fst (TmpPath_enter example_tmpdir (stale_world 1)) \<noteq>
     Inr (example_base @ ADDED_FOLDER @ ''_0'' @ sep) \<and>
   isdir_calls (trace (snd (TmpPath_enter example_tmpdir (stale_world 1)))) =
     [example_tmpdir, example_base @ ADDED_FOLDER @ sep @ ''_0'' @ sep]"
  by (simp add: TmpPath_enter_def TmpPath_init_def stale_world_def isdir_def rmtree_def
      makedirs_def emit_def Let_def MAX_RESERVE_FOLDERS_def upt_rec reservefolder_def str_nat_0
      example_tmpdir_def example_base_def sep_def ADDED_FOLDER_def remove_msg_def error_text_def
      parents_def endswith_def suffix_to_prefix)

text \<open>The hypotheses of the amended claim C6 hold for the first reserve folder.\<close>

theorem reserve_slot_selection_witness:
  "TmpPath_init example_base = Inr example_tmpdir \<and>
   example_tmpdir \<in> set (dirs crowded_world) \<and> 0 < rm_fails crowded_world example_tmpdir \<and>
   1 < MAX_RESERVE_FOLDERS \<and>
   reservefolder example_tmpdir 0 \<in> set (dirs crowded_world) \<and>
   0 < rm_fails crowded_world (reservefolder example_tmpdir 0) \<and>
   reservefolder example_tmpdir 1 \<notin> set (dirs crowded_world) \<and>
   fst (TmpPath_enter example_tmpdir crowded_world) = Inr (reservefolder example_tmpdir 1) \<and>
   isdir_calls (trace (snd (TmpPath_enter example_tmpdir crowded_world))) =
     [example_tmpdir, reservefolder example_tmpdir 0, reservefolder example_tmpdir 1] \<and>
   reservefolder example_tmpdir 1 \<in> set (dirs (snd (TmpPath_enter example_tmpdir crowded_world)))"
proof -
  have 1: "TmpPath_init example_base = Inr example_tmpdir"
    by (simp add: TmpPath_init_def example_base_def example_tmpdir_def endswith_def suffix_def)
  have 2: "example_tmpdir \<in> set (dirs crowded_world)" "0 < rm_fails crowded_world example_tmpdir"
    by (simp_all add: crowded_world_def)
  have 3: "1 < MAX_RESERVE_FOLDERS" by (simp add: MAX_RESERVE_FOLDERS_def)
  have 4: "reservefolder example_tmpdir 0 \<in> set (dirs crowded_world)"
    "0 < rm_fails crowded_world (reservefolder example_tmpdir 0)"
    by (simp_all add: crowded_world_def)
  then have 5: "\<forall>i<1. reservefolder example_tmpdir i \<in> set (dirs crowded_world) \<and>
      0 < rm_fails crowded_world (reservefolder example_tmpdir i)" by simp
  have 6: "reservefolder example_tmpdir 1 \<notin> set (dirs crowded_world)"
    using reservefolder_inj [of example_tmpdir 1 0]
    by (auto simp: crowded_world_def reservefolder_neq)
       (simp add: reservefolder_def example_tmpdir_def example_base_def)
  have 7: "isdir_calls (trace crowded_world) = []" by (simp add: crowded_world_def)
  from reserve_slot_selection [OF 1 2 3 5 disjI1 [OF 6]] 1 2 3 4 6 7 show ?thesis
    by (simp add: upt_rec)
qed

text \<open>
  Claim C1. On a path that does not contain the marker segment, \<open>rm_tmp_tree\<close> fails at
  its assertion: the tree is unchanged and no removal is attempted. The same holds for
  \<open>__exit__\<close>, which calls it.
\<close>

theorem rm_tmp_tree_refuses_without_marker:
  "\<not> contains marker_segment p \<Longrightarrow>
     rm_tmp_tree p w = (Inl AssertionError, w) \<and>
     TmpPath_exit p exc_val w = (Inl AssertionError, w) \<and>
     rmtree_calls (trace (snd (rm_tmp_tree p w))) = rmtree_calls (trace w)"
  by (simp add: rm_tmp_tree_def TmpPath_exit_def)

text \<open>The path \<open>c:\tmp\\<close> has no marker segment and is refused.\<close>

theorem rm_tmp_tree_refuses_witness:
  "\<not> contains marker_segment example_base \<and>
   rm_tmp_tree example_base (stale_world 0) = (Inl AssertionError, stale_world 0)"
  using rm_tmp_tree_refuses_without_marker [of example_base "stale_world 0"]
  by (simp add: marker_segment_def sep_def ADDED_FOLDER_def example_base_def)

lemma str_int_nonempty [simp]: "str_int n \<noteq> []"
  by (simp add: str_int_def)

text \<open>
  Claim C10. For a \<open>tmpbase\<close> that ends with the separator and contains the marker
  segment, \<open>tmp_in_tmp\<close> returns \<open>tmpbase + prefix + str(num) + separator\<close>; the result
  ends with the separator, contains the marker segment and passes the assertion of
  \<open>rm_tmp_tree\<close>.
\<close>

theorem tmp_in_tmp_stays_inside_marker:
  assumes "endswith tmpbase sep" and "contains marker_segment tmpbase"
  shows "tmp_in_tmp tmpbase pfx num = Inr (tmpbase @ pfx @ str_int num @ sep) \<and>
         endswith (tmpbase @ pfx @ str_int num @ sep) sep \<and>
         contains marker_segment (tmpbase @ pfx @ str_int num @ sep) \<and>
         fst (rm_tmp_tree (tmpbase @ pfx @ str_int num @ sep) w) = Inr ()"
proof -
  from assms(2) have "contains marker_segment (tmpbase @ pfx @ str_int num @ sep)"
    using contains_append [of marker_segment tmpbase "[]"] by simp
  with assms show ?thesis
    by (simp add: tmp_in_tmp_def rm_tmp_tree_def endswith_def suffix_def)
qed

text \<open>The hypotheses of claim C10 hold for the marker directory under \<open>c:\tmp\\<close>.\<close>

theorem tmp_in_tmp_witness:
  "endswith example_tmpdir sep \<and> contains marker_segment example_tmpdir \<and>
   tmp_in_tmp example_tmpdir ''x'' 7 = Inr (example_tmpdir @ ''x7'' @ sep)"
proof -
  have 1: "endswith example_tmpdir sep"
    by (simp add: example_tmpdir_def endswith_def suffix_def)
  have 2: "contains marker_segment example_tmpdir"
    by (simp add: example_tmpdir_def example_base_def marker_segment_def ADDED_FOLDER_def sep_def)
  have 3: "str_int 7 = ''7''"
    by (simp add: str_int_def, subst str_nat.simps, simp add: digit_char_def)
  from tmp_in_tmp_stays_inside_marker [OF 1 2, of "''x''" 7] 1 2 3 show ?thesis by simp
qed

text \<open>
  Claim C9. For every base \<open>b\<close> and every remainder \<open>s\<close> (in particular a normalized
  directory path and a short path), \<open>to_short_path(b, b + s)\<close> returns exactly \<open>s\<close>.
\<close>

theorem to_short_path_round_trip: "to_short_path b (b @ s) = Inr s"
  by (simp add: to_short_path_def startswith_def)

lemma MAX3: "MAX_RMTREE_RETRIES = 3" by (simp add: MAX_RMTREE_RETRIES_def)

lemma rm_loop_success:
  "p \<in> set (dirs w) \<Longrightarrow> rm_fails w p = 0 \<Longrightarrow>
   rm_loop n p w = w\<lparr>trace := trace w @ [RmTree p], dirs := filter (\<lambda>d. \<not> prefix p d) (dirs w)\<rparr>"
  by (subst rm_loop.simps) (simp add: rmtree_done Let_def)

lemma rm_loop_refused:
  "p \<in> set (dirs w) \<Longrightarrow> 0 < rm_fails w p \<Longrightarrow> 1 < n \<Longrightarrow>
   rm_loop n p w = rm_loop (n - 1) p
     (w\<lparr>rm_fails := (rm_fails w)(p := rm_fails w p - 1),
        trace := trace w @ [RmTree p, Warn (retry_msg p (OSError (strerror w p)) (n - 1)), Sleep 1]\<rparr>)"
  by (subst rm_loop.simps) (simp add: rmtree_refused emit_def Let_def)

lemma rm_loop_refused_last:
  "p \<in> set (dirs w) \<Longrightarrow> 0 < rm_fails w p \<Longrightarrow> n \<le> 1 \<Longrightarrow>
   rm_loop n p w =
     w\<lparr>trace := trace w @ [RmTree p, Warn (giveup_msg p (OSError (strerror w p)))],
        rm_fails := (rm_fails w)(p := rm_fails w p - 1)\<rparr>"
  by (subst rm_loop.simps) (simp add: rmtree_refused emit_def Let_def)

lemma rm_loop_missing:
  "p \<notin> set (dirs w) \<Longrightarrow> 1 < n \<Longrightarrow>
   rm_loop n p w = rm_loop (n - 1) p
     (w\<lparr>trace := trace w @ [RmTree p, Warn (retry_msg p (OSError (strerror w p)) (n - 1)), Sleep 1]\<rparr>)"
  by (subst rm_loop.simps) (simp add: rmtree_missing emit_def Let_def)

lemma rm_loop_missing_last:
  "p \<notin> set (dirs w) \<Longrightarrow> n \<le> 1 \<Longrightarrow>
   rm_loop n p w = w\<lparr>trace := trace w @ [RmTree p, Warn (giveup_msg p (OSError (strerror w p)))]\<rparr>"
  by (subst rm_loop.simps) (simp add: rmtree_missing emit_def Let_def)

text \<open>
  Claim C8. Release (\<open>__exit__\<close> with no exception in flight, on a path with the marker
  segment) never raises. It attempts the removal at most three times, with a warning and a
  delay of one second after each of the first two refusals. When an attempt succeeds the
  workspace is gone; when all three fail, a last warning is logged, the tree is left as it
  was, and the call returns normally. With an exception in flight the same happens, and
  that exception is the only one raised.
\<close>

theorem release_retries_and_swallows:
  assumes "contains marker_segment p"
  shows "fst (TmpPath_exit p None w) = Inr () \<and>
    TmpPath_exit p (Some x) w = (Inl x, snd (TmpPath_exit p None w)) \<and>
    (p \<in> set (dirs w) \<and> rm_fails w p = 0 \<longrightarrow>
       trace (snd (TmpPath_exit p None w)) = trace w @ [RmTree p] \<and>
       p \<notin> set (dirs (snd (TmpPath_exit p None w)))) \<and>
    (p \<in> set (dirs w) \<and> rm_fails w p = 1 \<longrightarrow>
       trace (snd (TmpPath_exit p None w)) = trace w @ failed_attempt p w 2 @ [RmTree p] \<and>
       p \<notin> set (dirs (snd (TmpPath_exit p None w)))) \<and>
    (p \<in> set (dirs w) \<and> rm_fails w p = 2 \<longrightarrow>
       trace (snd (TmpPath_exit p None w)) =
         trace w @ failed_attempt p w 2 @ failed_attempt p w 1 @ [RmTree p] \<and>
       p \<notin> set (dirs (snd (TmpPath_exit p None w)))) \<and>
    (p \<notin> set (dirs w) \<or> 3 \<le> rm_fails w p \<longrightarrow>
       trace (snd (TmpPath_exit p None w)) =
         trace w @ failed_attempt p w 2 @ failed_attempt p w 1 @
           [RmTree p, Warn (giveup_msg p (OSError (strerror w p)))] \<and>
       dirs (snd (TmpPath_exit p None w)) = dirs w)"
proof -
  have exit: "TmpPath_exit p None w = (Inr (), rm_loop 3 p w)"
    "TmpPath_exit p (Some x) w = (Inl x, rm_loop 3 p w)"
    using assms by (simp_all add: TmpPath_exit_def rm_tmp_tree_def MAX3)
  have c0: "p \<in> set (dirs w) \<Longrightarrow> rm_fails w p = 0 \<Longrightarrow>
      rm_loop 3 p w = w\<lparr>trace := trace w @ [RmTree p], dirs := filter (\<lambda>d. \<not> prefix p d) (dirs w)\<rparr>"
    by (rule rm_loop_success)
  have c1: "p \<in> set (dirs w) \<Longrightarrow> rm_fails w p = 1 \<Longrightarrow>
      rm_loop 3 p w = w\<lparr>trace := trace w @ failed_attempt p w 2 @ [RmTree p],
         rm_fails := (rm_fails w)(p := 0),
         dirs := filter (\<lambda>d. \<not> prefix p d) (dirs w)\<rparr>"
    by (simp add: rm_loop_refused rm_loop_success failed_attempt_def)
  have c2: "p \<in> set (dirs w) \<Longrightarrow> rm_fails w p = 2 \<Longrightarrow>
      rm_loop 3 p w = w\<lparr>trace := trace w @ failed_attempt p w 2 @ failed_attempt p w 1 @ [RmTree p],
         rm_fails := (rm_fails w)(p := 0),
         dirs := filter (\<lambda>d. \<not> prefix p d) (dirs w)\<rparr>"
    by (simp add: rm_loop_refused rm_loop_success failed_attempt_def)
  have c3: "p \<in> set (dirs w) \<Longrightarrow> 3 \<le> rm_fails w p \<Longrightarrow>
      rm_loop 3 p w = w\<lparr>trace := trace w @ failed_attempt p w 2 @ failed_attempt p w 1 @
           [RmTree p, Warn (giveup_msg p (OSError (strerror w p)))],
         rm_fails := (rm_fails w)(p := rm_fails w p - 3)\<rparr>"
    by (simp add: rm_loop_refused rm_loop_refused_last failed_attempt_def numeral_3_eq_3)
  have c4: "p \<notin> set (dirs w) \<Longrightarrow>
      rm_loop 3 p w = w\<lparr>trace := trace w @ failed_attempt p w 2 @ failed_attempt p w 1 @
           [RmTree p, Warn (giveup_msg p (OSError (strerror w p)))]\<rparr>"
    by (simp add: rm_loop_missing rm_loop_missing_last failed_attempt_def)
  show ?thesis
    unfolding exit using c0 c1 c2 c3 c4 by (cases "p \<in> set (dirs w)") auto
qed


text \<open>Scenario D: two refusals, then the third attempt removes the workspace.\<close>

theorem release_retries_witness:
  "contains marker_segment example_tmpdir \<and>
   example_tmpdir \<in> set (dirs (stale_world 2)) \<and> rm_fails (stale_world 2) example_tmpdir = 2 \<and>
   fst (TmpPath_exit example_tmpdir None (stale_world 2)) = Inr () \<and>
   rmtree_calls (trace (snd (TmpPath_exit example_tmpdir None (stale_world 2)))) =
     [example_tmpdir, example_tmpdir, example_tmpdir] \<and>
   example_tmpdir \<notin> set (dirs (snd (TmpPath_exit example_tmpdir None (stale_world 2))))"
proof -
  have 1: "contains marker_segment example_tmpdir"
    by (simp add: example_tmpdir_def example_base_def marker_segment_def ADDED_FOLDER_def sep_def)
  have 2: "example_tmpdir \<in> set (dirs (stale_world 2))" "rm_fails (stale_world 2) example_tmpdir = 2"
    "trace (stale_world 2) = []"
    by (simp_all add: stale_world_def)
  from release_retries_and_swallows [OF 1, of "stale_world 2"] 1 2 show ?thesis
    by (simp add: failed_attempt_def)
qed

lemma replace_absent: "c \<in> set old \<Longrightarrow> c \<notin> set s \<Longrightarrow> replace old new s = s"
proof (induction old new s rule: replace.induct)
  case (1 old new s)
  show ?case
  proof (cases s)
    case Nil
    with "1.prems" show ?thesis by (subst replace.simps) auto
  next
    case (Cons x xs)
    from "1.prems" have np: "\<not> prefix old s"
      by (auto simp: prefix_def)
    from "1.prems" have ne: "old \<noteq> []" by auto
    from "1.prems" Cons have "c \<notin> set (tl s)" by simp
    with "1.IH"(2) [OF ne _ np] "1.prems"(1) Cons have "replace old new (tl s) = tl s" by simp
    with ne np Cons show ?thesis by (subst replace.simps) simp
  qed
qed

lemma lower_char_not_upper: "(of_char (lower_char c) :: nat) < 65 \<or> 90 < (of_char (lower_char c) :: nat)"
  by (auto simp: lower_char_def Let_def)

lemma lower_no_C: "CHR ''C'' \<notin> set (lower s)"
proof
  assume "CHR ''C'' \<in> set (lower s)"
  then obtain c where "lower_char c = CHR ''C''" by (auto simp: lower_def)
  with lower_char_not_upper [of c] show False by simp
qed

lemma normalize_dir_path_lower:
  "normalize_dir_path env p = Inr n \<Longrightarrow> n = lower (abspath env p) @ sep"
  by (auto simp: normalize_dir_path_def Let_def split: if_splits)

lemma config_dir_placeholder_absent:
  assumes "normalize_config_dir_path env path configdir = Inr n"
  shows "replace ''{CONFIG-DIR}'' configdir n = n"
proof -
  from assms obtain q where "n = lower q @ sep"
    by (auto simp: normalize_config_dir_path_def dest: normalize_dir_path_lower split: if_splits)
  then have "CHR ''C'' \<notin> set n" using lower_no_C by (simp add: sep_def)
  then show ?thesis by (intro replace_absent [of "CHR ''C''"]) simp_all
qed

lemma subst_keys_fst: "fst (subst_keys config p r) = foldl (\<lambda>q kv. spec_subst_key kv q) p config"
  by (induction config p r rule: subst_keys.induct)
     (auto simp: spec_subst_key_def Let_def split: json.splits)

lemma subst_keys_snd_True: "snd (subst_keys config p True)"
  by (induction config arbitrary: p) (auto simp: Let_def split: json.splits)

lemma subst_keys_snd:
  "snd (subst_keys config p r) \<longleftrightarrow> r \<or> \<not> list_all (\<lambda>kv. spec_subst_key kv p = p) config"
  by (induction config p r rule: subst_keys.induct)
     (auto simp: spec_subst_key_def Let_def subst_keys_snd_True split: json.splits)

lemma foldl_unchanged:
  "list_all (\<lambda>kv. spec_subst_key kv n = n) config \<Longrightarrow> foldl (\<lambda>q kv. spec_subst_key kv q) n config = n"
  by (induction config) simp_all

lemma spec_no_substitution_fixes:
  "spec_no_substitution configdir config n \<Longrightarrow> spec_substitute configdir config n = n"
  by (simp add: spec_no_substitution_def spec_substitute_def foldl_unchanged)

lemma config_dir_path_unfold:
  assumes "normalize_config_dir_path env path configdir = Inr n"
  shows "config_dir_path env path configdir config =
    (if spec_no_substitution configdir config n then Some (Inr n)
     else config_dir_path env (spec_substitute configdir config n) configdir config)"
proof -
  note c = config_dir_placeholder_absent [OF assms]
  show ?thesis
    by (subst config_dir_path.simps)
       (simp add: assms c Let_def subst_keys_fst subst_keys_snd spec_substitute_def
          spec_no_substitution_def foldl_unchanged)
qed

lemma config_dir_path_returns_fixed_point:
  "config_dir_path env path configdir config = Some y \<Longrightarrow>
   (\<forall>r. y = Inr r \<longrightarrow>
      spec_no_substitution configdir config r \<and> (\<exists>q. normalize_config_dir_path env q configdir = Inr r))"
proof (erule config_dir_path.raw_induct [rotated 1], goal_cases)
  case (1 rec_call env path configdir config y)
  note body = 1(2)
  show ?case
  proof (cases "normalize_config_dir_path env path configdir")
    case (Inl e)
    with body show ?thesis by auto
  next
    case (Inr n)
    note c = config_dir_placeholder_absent [OF Inr]
    show ?thesis
    proof (cases "spec_no_substitution configdir config n")
      case True
      with body Inr c have "y = Inr n"
        by (simp add: Let_def subst_keys_fst subst_keys_snd spec_no_substitution_def
              foldl_unchanged)
      with True Inr show ?thesis by blast
    next
      case False
      with body Inr c have "rec_call env (spec_substitute configdir config n) configdir config = Some y"
        by (simp add: Let_def subst_keys_fst subst_keys_snd spec_substitute_def spec_no_substitution_def)
      from 1(1) [OF this] show ?thesis .
    qed
  qed
qed

text \<open>
  Claim C2. A pass normalizes the value (a relative value is appended to the base
  directory first) and then substitutes: the placeholder of the config directory, then the
  placeholder of every string-valued key. When the substitution changed the string, or
  more generally when any replacement of the pass changed anything, the whole algorithm
  runs again on the new string. Resolution returns the normalized string of a pass that
  performed no substitution, and nothing else. (After normalization the string is in lower
  case, so the placeholder of the config directory never occurs in it and cannot be the
  only change.)
\<close>

theorem resolution_repeats_until_no_substitution:
  assumes "normalize_config_dir_path env path configdir = Inr n"
  shows "(spec_substitute configdir config n \<noteq> n \<longrightarrow>
            config_dir_path env path configdir config =
              config_dir_path env (spec_substitute configdir config n) configdir config) \<and>
         (\<not> spec_no_substitution configdir config n \<longrightarrow>
            config_dir_path env path configdir config =
              config_dir_path env (spec_substitute configdir config n) configdir config) \<and>
         (spec_no_substitution configdir config n \<longrightarrow>
            config_dir_path env path configdir config = Some (Inr n)) \<and>
         (\<forall>r. config_dir_path env path configdir config = Some (Inr r) \<longrightarrow>
            spec_no_substitution configdir config r \<and>
            (\<exists>q. normalize_config_dir_path env q configdir = Inr r))"
proof (intro conjI impI allI)
  note u = config_dir_path_unfold [OF assms, of config]
  { assume "spec_substitute configdir config n \<noteq> n"
    then have "\<not> spec_no_substitution configdir config n"
      using spec_no_substitution_fixes by blast
    then show "config_dir_path env path configdir config =
              config_dir_path env (spec_substitute configdir config n) configdir config"
      by (simp only: u if_False) }
  { assume "\<not> spec_no_substitution configdir config n"
    then show "config_dir_path env path configdir config =
              config_dir_path env (spec_substitute configdir config n) configdir config"
      by (simp only: u if_False) }
  { assume "spec_no_substitution configdir config n"
    then show "config_dir_path env path configdir config = Some (Inr n)"
      by (simp only: u if_True) }
  { fix r assume r: "config_dir_path env path configdir config = Some (Inr r)"
    from config_dir_path_returns_fixed_point [OF r]
    show "spec_no_substitution configdir config r" by blast
    from config_dir_path_returns_fixed_point [OF r]
    show "\<exists>q. normalize_config_dir_path env q configdir = Inr r" by blast }
qed

text \<open>
  The spec's example: \<open>{mo2}sub\\<close> is normalized, the placeholder is replaced, and the
  second pass, which replaces nothing, returns.
\<close>

theorem resolution_witness:
  "normalize_config_dir_path example_env (''{mo2}sub'' @ sep) example_configdir =
     Inr (''c:'' @ sep @ ''cfg'' @ sep @ ''{mo2}sub'' @ sep) \<and>
   spec_substitute example_configdir example_config (''c:'' @ sep @ ''cfg'' @ sep @ ''{mo2}sub'' @ sep) =
     ''c:'' @ sep @ ''cfg'' @ sep @ ''M'' @ sep @ ''sub'' @ sep \<and>
   normalize_config_dir_path example_env (''c:'' @ sep @ ''cfg'' @ sep @ ''M'' @ sep @ ''sub'' @ sep)
       example_configdir =
     Inr (''c:'' @ sep @ ''cfg'' @ sep @ ''m'' @ sep @ ''sub'' @ sep) \<and>
   spec_no_substitution example_configdir example_config
     (''c:'' @ sep @ ''cfg'' @ sep @ ''m'' @ sep @ ''sub'' @ sep) \<and>
   config_dir_path example_env (''{mo2}sub'' @ sep) example_configdir example_config =
     Some (Inr (''c:'' @ sep @ ''cfg'' @ sep @ ''m'' @ sep @ ''sub'' @ sep))"
proof -
  let ?n = "''c:'' @ sep @ ''cfg'' @ sep @ ''{mo2}sub'' @ sep"
  let ?s = "''c:'' @ sep @ ''cfg'' @ sep @ ''M'' @ sep @ ''sub'' @ sep"
  let ?r = "''c:'' @ sep @ ''cfg'' @ sep @ ''m'' @ sep @ ''sub'' @ sep"
  have 1: "normalize_config_dir_path example_env (''{mo2}sub'' @ sep) example_configdir = Inr ?n"
    by code_simp
  have 2: "spec_substitute example_configdir example_config ?n = ?s"
    by code_simp
  have 3: "normalize_config_dir_path example_env ?s example_configdir = Inr ?r"
    by code_simp
  have 4: "spec_no_substitution example_configdir example_config ?r"
    by code_simp
  have 5: "?s \<noteq> ?n"
    by (simp add: sep_def)
  note pass1 = resolution_repeats_until_no_substitution [OF 1, of example_config]
  note pass2 = resolution_repeats_until_no_substitution [OF 3, of example_config]
  from conjunct1 [OF pass1]
  have "?s \<noteq> ?n \<longrightarrow>
        config_dir_path example_env (''{mo2}sub'' @ sep) example_configdir example_config =
        config_dir_path example_env ?s example_configdir example_config"
    by (simp only: 2)
  from this 5
  have a: "config_dir_path example_env (''{mo2}sub'' @ sep) example_configdir example_config =
        config_dir_path example_env ?s example_configdir example_config"
    by (rule mp)
  from conjunct1 [OF conjunct2 [OF conjunct2 [OF pass2]]] 4
  have b: "config_dir_path example_env ?s example_configdir example_config = Some (Inr ?r)"
    by (rule mp)
  from a b
  have c: "config_dir_path example_env (''{mo2}sub'' @ sep) example_configdir example_config =
        Some (Inr ?r)"
    by (rule trans)
  from 1 2 3 4 c show ?thesis by blast
qed

lemma lower_char_eq_sep [simp]: "lower_char c = CHR 0x5C \<longleftrightarrow> c = CHR 0x5C"
proof
  assume a: "lower_char c = CHR 0x5C"
  show "c = CHR 0x5C"
  proof (cases "65 \<le> (of_char c :: nat) \<and> (of_char c :: nat) \<le> 90")
    case True
    with a have "(of_char (char_of ((of_char c :: nat) + 32)) :: nat) = of_char (CHR 0x5C)"
      by (simp add: lower_char_def)
    with True show ?thesis by simp
  next
    case False
    with a show ?thesis by (simp add: lower_char_def)
  qed
qed (simp add: lower_char_def)

lemma lower_char_eq_slash [simp]: "lower_char c = CHR ''/'' \<longleftrightarrow> c = CHR ''/''"
proof
  assume a: "lower_char c = CHR ''/''"
  show "c = CHR ''/''"
  proof (cases "65 \<le> (of_char c :: nat) \<and> (of_char c :: nat) \<le> 90")
    case True
    with a have "(of_char (char_of ((of_char c :: nat) + 32)) :: nat) = of_char (CHR ''/'')"
      by (simp add: lower_char_def)
    with True show ?thesis by simp
  next
    case False
    with a show ?thesis by (simp add: lower_char_def)
  qed
qed (simp add: lower_char_def)

lemma lower_char_idem [simp]: "lower_char (lower_char c) = lower_char c"
  using lower_char_not_upper [of c] by (auto simp: lower_char_def [of "lower_char c"] Let_def)

lemma lower_idem [simp]: "lower (lower s) = lower s"
  by (simp add: lower_def)

lemma contains_char: "contains [c] s \<longleftrightarrow> c \<in> set s"
  by (induction s) auto

lemma slash_in_lower: "CHR ''/'' \<in> set (lower s) \<longleftrightarrow> CHR ''/'' \<in> set s"
proof
  assume "CHR ''/'' \<in> set (lower s)"
  then obtain c where c: "c \<in> set s" "CHR ''/'' = lower_char c" by (auto simp: lower_def)
  from c(2) have "lower_char c = CHR ''/''" by (rule sym)
  with c(1) show "CHR ''/'' \<in> set s" by simp
next
  assume "CHR ''/'' \<in> set s"
  then have "lower_char (CHR ''/'') \<in> set (lower s)" unfolding lower_def by simp
  then show "CHR ''/'' \<in> set (lower s)" by (simp add: lower_char_def)
qed

lemma contains_altsep_lower [simp]: "contains altsep (lower s) \<longleftrightarrow> contains altsep s"
  by (simp add: altsep_def contains_char slash_in_lower)

lemma endswith_char: "endswith s [c] \<longleftrightarrow> s \<noteq> [] \<and> last s = c"
  by (cases s rule: rev_cases) (auto simp: endswith_def suffix_def)

lemma endswith_sep_lower [simp]: "endswith (lower s) sep \<longleftrightarrow> endswith s sep"
  by (cases s rule: rev_cases) (auto simp: sep_def endswith_char lower_def)

lemma endswith_altsep_lower [simp]: "endswith (lower s) altsep \<longleftrightarrow> endswith s altsep"
  by (cases s rule: rev_cases) (auto simp: altsep_def endswith_char lower_def)

lemma endswith_altsep_contains: "endswith s altsep \<Longrightarrow> contains altsep s"
  by (auto simp: altsep_def endswith_char contains_char dest: last_in_set)

text \<open>
  Normalizing a normalized path. The lemmas below lead to claim C5: on the Windows path
  functions, \<open>abspath\<close> returns an absolute normalized path as it is, without its final
  separator. Lowercasing leaves the separator, the colon and the dot alone, so it commutes with
  \<open>splitroot\<close> and with \<open>normpath\<close>.
\<close>

lemma lower_char_fixes:
  assumes "\<not> (65 \<le> (of_char k :: nat) \<and> (of_char k :: nat) \<le> 90)"
    and "\<not> (97 \<le> (of_char k :: nat) \<and> (of_char k :: nat) \<le> 122)"
  shows "lower_char c = k \<longleftrightarrow> c = k"
proof
  assume a: "lower_char c = k"
  show "c = k"
  proof (cases "65 \<le> (of_char c :: nat) \<and> (of_char c :: nat) \<le> 90")
    case True
    with a have "(of_char (char_of ((of_char c :: nat) + 32)) :: nat) = of_char k"
      by (simp add: lower_char_def)
    with True assms show ?thesis by simp
  next
    case False
    with a show ?thesis by (simp add: lower_char_def)
  qed
next
  assume "c = k"
  with assms show "lower_char c = k" by (auto simp: lower_char_def Let_def)
qed

lemma lower_char_colon [simp]: "lower_char c = CHR '':'' \<longleftrightarrow> c = CHR '':''"
  by (rule lower_char_fixes) simp_all

lemma lower_char_dot [simp]: "lower_char c = CHR ''.'' \<longleftrightarrow> c = CHR ''.''"
  by (rule lower_char_fixes) simp_all

lemma upper_lower_char [simp]: "upper_char (lower_char c) = upper_char c"
proof (cases "65 \<le> (of_char c :: nat) \<and> (of_char c :: nat) \<le> 90")
  case True
  then have "lower_char c = char_of ((of_char c :: nat) + 32)" by (simp add: lower_char_def)
  moreover from True have "upper_char c = c" by (simp add: upper_char_def)
  ultimately show ?thesis using True by (simp add: upper_char_def)
next
  case False
  then show ?thesis by (auto simp: lower_char_def Let_def)
qed

lemma upper_lower [simp]: "upper (lower s) = upper s"
  by (simp add: upper_def lower_def)

lemma lower_append [simp]: "lower (a @ b) = lower a @ lower b"
  and lower_take: "lower (take n s) = take n (lower s)"
  and lower_drop: "lower (drop n s) = drop n (lower s)"
  and lower_Nil [simp]: "lower [] = []"
  and lower_Cons [simp]: "lower (c # s) = lower_char c # lower s"
  and lower_eq_Nil [simp]: "lower s = [] \<longleftrightarrow> s = []"
  and length_lower [simp]: "length (lower s) = length s"
  by (simp_all add: lower_def take_map drop_map)

lemma lower_sep [simp]: "lower sep = sep"
  by (simp add: sep_def lower_char_def)

lemma lower_eq_single:
  assumes "\<And>c. lower_char c = k \<longleftrightarrow> c = k"
  shows "lower s = [k] \<longleftrightarrow> s = [k]"
  by (cases s; cases "tl s") (auto simp: assms)

lemma lower_eq_sep [simp]: "lower s = sep \<longleftrightarrow> s = sep"
  unfolding sep_def by (rule lower_eq_single) simp

lemma lower_eq_colon [simp]: "lower s = '':'' \<longleftrightarrow> s = '':''"
  by (rule lower_eq_single) simp

lemma lower_eq_dot [simp]: "lower s = ''.'' \<longleftrightarrow> s = ''.''"
  by (rule lower_eq_single) simp

lemma lower_eq_dotdot [simp]: "lower s = ''..'' \<longleftrightarrow> s = ''..''"
  by (cases s; cases "tl s"; cases "tl (tl s)") auto

lemma lower_char_bs [simp]: "lower_char bs = bs"
  by (simp add: lower_char_def)

lemma norm_seps_lower: "norm_seps (lower s) = lower (norm_seps s)"
  by (induction s) (auto simp: norm_seps_def)

lemma norm_seps_id: "CHR ''/'' \<notin> set s \<Longrightarrow> norm_seps s = s"
  by (induction s) (auto simp: norm_seps_def)

lemma norm_seps_no_slash [simp]: "CHR ''/'' \<notin> set (norm_seps s)"
  by (auto simp: norm_seps_def)

lemma takeWhile_index:
  "c \<in> set r \<and> length (takeWhile (\<lambda>x. x \<noteq> c) r) = j \<longleftrightarrow>
     j < length r \<and> r ! j = c \<and> (\<forall>k<j. r ! k \<noteq> c)"
proof (induction r arbitrary: j)
  case Nil
  then show ?case by simp
next
  case (Cons x r)
  show ?case
  proof (cases "x = c")
    case True
    then show ?thesis by (cases j) auto
  next
    case False
    show ?thesis
    proof (cases j)
      case 0
      with False show ?thesis by simp
    next
      case (Suc m)
      have "(\<forall>k<Suc m. (x # r) ! k \<noteq> c) \<longleftrightarrow> (\<forall>k<m. r ! k \<noteq> c)"
        using False by (auto simp: nth_Cons split: nat.splits)
      with False Suc Cons.IH [of m] show ?thesis by simp
    qed
  qed
qed

lemma find_from_Some_iff:
  "find_from c n s = Some i \<longleftrightarrow>
     n \<le> i \<and> i < length s \<and> s ! i = c \<and> (\<forall>k. n \<le> k \<and> k < i \<longrightarrow> s ! k \<noteq> c)"
proof -
  let ?r = "drop n s"
  have "find_from c n s = Some i \<longleftrightarrow>
      n \<le> i \<and> (c \<in> set ?r \<and> length (takeWhile (\<lambda>x. x \<noteq> c) ?r) = i - n)"
    by (auto simp: find_from_def Let_def)
  also have "\<dots> \<longleftrightarrow> n \<le> i \<and> (i - n < length ?r \<and> ?r ! (i - n) = c \<and> (\<forall>k<i - n. ?r ! k \<noteq> c))"
    by (simp only: takeWhile_index)
  also have "\<dots> \<longleftrightarrow> n \<le> i \<and> i < length s \<and> s ! i = c \<and> (\<forall>k. n \<le> k \<and> k < i \<longrightarrow> s ! k \<noteq> c)"
  proof (cases "n \<le> i \<and> i < length s")
    case True
    have "(\<forall>k<i - n. ?r ! k \<noteq> c) \<longleftrightarrow> (\<forall>k. n \<le> k \<and> k < i \<longrightarrow> s ! k \<noteq> c)"
    proof
      assume a: "\<forall>k<i - n. ?r ! k \<noteq> c"
      show "\<forall>k. n \<le> k \<and> k < i \<longrightarrow> s ! k \<noteq> c"
      proof (intro allI impI)
        fix k assume k: "n \<le> k \<and> k < i"
        then have "k - n < i - n" by arith
        with a have "?r ! (k - n) \<noteq> c" by blast
        with k True show "s ! k \<noteq> c" by simp
      qed
    next
      assume a: "\<forall>k. n \<le> k \<and> k < i \<longrightarrow> s ! k \<noteq> c"
      show "\<forall>k<i - n. ?r ! k \<noteq> c"
      proof (intro allI impI)
        fix k assume "k < i - n"
        with a have "s ! (n + k) \<noteq> c" by simp
        with True \<open>k < i - n\<close> show "?r ! k \<noteq> c" by simp
      qed
    qed
    with True show ?thesis by auto
  next
    case False
    then show ?thesis by auto
  qed
  finally show ?thesis .
qed

lemma find_from_None_iff:
  "find_from c n s = None \<longleftrightarrow> (\<forall>k. n \<le> k \<and> k < length s \<longrightarrow> s ! k \<noteq> c)"
proof -
  have "find_from c n s = None \<longleftrightarrow> c \<notin> set (drop n s)"
    by (simp add: find_from_def Let_def)
  also have "\<dots> \<longleftrightarrow> (\<forall>k. n \<le> k \<and> k < length s \<longrightarrow> s ! k \<noteq> c)"
  proof
    assume a: "c \<notin> set (drop n s)"
    show "\<forall>k. n \<le> k \<and> k < length s \<longrightarrow> s ! k \<noteq> c"
    proof (intro allI impI)
      fix k assume k: "n \<le> k \<and> k < length s"
      then have "k - n < length (drop n s)" by auto
      then have "drop n s ! (k - n) \<in> set (drop n s)" by (rule nth_mem)
      with a k show "s ! k \<noteq> c" by auto
    qed
  next
    assume a: "\<forall>k. n \<le> k \<and> k < length s \<longrightarrow> s ! k \<noteq> c"
    show "c \<notin> set (drop n s)"
    proof
      assume "c \<in> set (drop n s)"
      then obtain j where "j < length (drop n s)" "drop n s ! j = c"
        by (auto simp: in_set_conv_nth)
      with a [rule_format, of "n + j"] show False by simp
    qed
  qed
  finally show ?thesis .
qed

lemma find_from_lower [simp]: "find_from bs n (lower s) = find_from bs n s"
proof (cases "find_from bs n s")
  case None
  then have "find_from bs n (lower s) = None" by (simp add: find_from_None_iff lower_def)
  with None show ?thesis by simp
next
  case (Some i)
  then have "find_from bs n (lower s) = Some i" by (simp add: find_from_Some_iff lower_def)
  with Some show ?thesis by simp
qed

lemma splitroot_lower:
  "nt_splitroot (lower p) =
     (case nt_splitroot p of (d, r, t) \<Rightarrow> (lower d, lower r, lower t))"
  by (simp add: nt_splitroot_def norm_seps_lower Let_def lower_take [symmetric] lower_drop [symmetric]
        split: option.splits)

lemma lower_char_dot_val [simp]: "lower_char CHR ''.'' = CHR ''.''"
  using lower_char_dot [of "CHR ''.''"] by blast

lemma lower_dot_val [simp]: "lower ''.'' = ''.''" "lower ''..'' = ''..''"
  using lower_eq_dot [of "''.''"] lower_eq_dotdot [of "''..''"] by blast+

lemma split_on_nonempty [simp]: "split_on c s \<noteq> []"
  by (induction s) (auto split: list.splits)

lemma split_on_lower: "split_on bs (lower s) = map lower (split_on bs s)"
  by (induction s) (auto split: list.splits)

lemma join_with_lower: "join_with sep (map lower cs) = lower (join_with sep cs)"
  by (induction sep cs rule: join_with.induct) simp_all

lemma norm_comps_lower:
  "norm_comps (lower root) (map lower acc) (map lower cs) = map lower (norm_comps root acc cs)"
proof (induction cs arbitrary: acc)
  case Nil
  then show ?case by (simp add: rev_map)
next
  case (Cons c cs)
  show ?case
  proof (cases "c = [] \<or> c = ''.''")
    case True
    then show ?thesis using Cons.IH [of acc] by auto
  next
    case False
    show ?thesis
    proof (cases "c = ''..''")
      case True
      show ?thesis
      proof (cases acc)
        case Nil
        with True Cons.IH [of "[]"] Cons.IH [of "[c]"] show ?thesis by (cases "root = []") auto
      next
        case (Cons d ds)
        with True Cons.IH [of ds] Cons.IH [of "c # acc"] show ?thesis by (cases "d = ''..''") auto
      qed
    next
      case c: False
      with False Cons.IH [of "c # acc"] show ?thesis by simp
    qed
  qed
qed

lemma normpath_lower: "nt_normpath (lower z) = lower (nt_normpath z)"
proof -
  obtain d r t where sr: "nt_splitroot (norm_seps z) = (d, r, t)"
    by (cases "nt_splitroot (norm_seps z)") auto
  then have "nt_splitroot (norm_seps (lower z)) = (lower d, lower r, lower t)"
    by (simp add: norm_seps_lower splitroot_lower)
  moreover have "norm_comps (lower r) [] (split_on bs (lower t)) =
      map lower (norm_comps r [] (split_on bs t))"
    using norm_comps_lower [of r "[]" "split_on bs t"] by (simp add: split_on_lower)
  ultimately show ?thesis
    using sr join_with_lower [of "norm_comps r [] (split_on bs t)"]
    by (auto simp: nt_normpath_def Let_def)
qed

text \<open>
  \<open>splitroot\<close> on a path without \<open>/\<close>: the three parts make up the path, the root is
  empty or the separator, and \<open>join\<close> returns an absolute second argument unchanged.
\<close>

lemma take1_drop: "i < length p \<Longrightarrow> take (Suc 0) (drop i p) = [p ! i]"
  using Cons_nth_drop_Suc [of i p] by (metis take0 take_Suc_Cons)

lemma take1_drop_append: "take n p @ take (Suc 0) (drop n p) @ drop (Suc n) p = p"
  using append_take_drop_id [of "Suc 0" "drop n p"] append_take_drop_id [of n p] by simp

lemma take1_drop_append3: "take 2 p @ take (Suc 0) (drop 2 p) @ drop 3 p = p"
  using take1_drop_append [of 2 p] by (simp add: numeral_3_eq_3 numeral_2_eq_2)

lemma splitroot_unfold:
  assumes "CHR ''/'' \<notin> set p"
  shows "nt_splitroot p =
     (if take 1 p = sep then
        (if take 1 (drop 1 p) = sep then
           (case find_from bs (unc_start p) p of
              None \<Rightarrow> (p, [], [])
            | Some i \<Rightarrow>
                (case find_from bs (i + 1) p of
                   None \<Rightarrow> (p, [], [])
                 | Some i2 \<Rightarrow> (take i2 p, sep, drop (i2 + 1) p)))
         else ([], sep, drop 1 p))
      else if take 1 (drop 1 p) = '':'' then
        (if take 1 (drop 2 p) = sep then (take 2 p, sep, drop 3 p)
         else (take 2 p, [], drop 2 p))
      else ([], [], p))"
proof -
  have "\<And>i i2. find_from bs i p = Some i2 \<Longrightarrow> take 1 (drop i2 p) = sep"
    by (simp add: find_from_Some_iff take1_drop sep_def)
  then show ?thesis
    using assms
    by (auto simp: nt_splitroot_def norm_seps_id unc_start_def Let_def split: option.splits)
qed

lemma splitroot_append: "nt_splitroot p = (d, r, t) \<Longrightarrow> d @ r @ t = p"
  by (auto simp: nt_splitroot_def Let_def take1_drop_append take1_drop_append3
        split: option.splits if_splits)

lemma splitroot_root_sep:
  "CHR ''/'' \<notin> set p \<Longrightarrow> nt_splitroot p = (d, r, t) \<Longrightarrow> r = [] \<or> r = sep"
  by (auto simp: splitroot_unfold split: option.splits if_splits)

lemma join_absolute: "absolute_path q \<Longrightarrow> nt_join cwd q = q"
  by (cases "nt_splitroot cwd"; cases "nt_splitroot q")
     (auto simp: absolute_path_def nt_join_def Let_def splitroot_append)

text \<open>
  The components that \<open>normpath\<close> keeps are a run of \<open>..\<close>, none of them under a
  root, followed by ordinary components; joining ordinary components and splitting them
  again gives them back.
\<close>

lemma split_on_no_sep: "c \<in> set (split_on b s) \<Longrightarrow> b \<notin> set c"
  by (induction s arbitrary: c) (auto split: list.splits if_splits)

lemma split_on_single: "b \<notin> set x \<Longrightarrow> split_on b x = [x]"
  by (induction x) auto

lemma split_on_append_sep: "split_on b (s @ [b]) = split_on b s @ [[]]"
  by (induction s) (auto split: list.splits)

lemma split_on_Cons: "b \<notin> set x \<Longrightarrow> split_on b (x @ b # rest) = x # split_on b rest"
  by (induction x) auto

lemma split_join:
  "os \<noteq> [] \<Longrightarrow> \<forall>c\<in>set os. bs \<notin> set c \<Longrightarrow> split_on bs (join_with sep os) = os"
proof (induction os rule: induct_list012)
  case 1
  then show ?case by simp
next
  case (2 x)
  then show ?case by (simp add: split_on_single)
next
  case (3 x y zs)
  then show ?case by (simp add: split_on_Cons sep_def)
qed

lemma norm_comps_ordinary:
  "\<forall>c\<in>set os. ordinary c \<Longrightarrow> norm_comps root acc (os @ cs) = norm_comps root (rev os @ acc) cs"
  by (induction os arbitrary: acc) (auto simp: ordinary_def)

lemma norm_comps_ordinary_only:
  assumes "\<forall>c\<in>set os. ordinary c"
  shows "norm_comps root acc os = rev acc @ os"
    and "norm_comps root acc (os @ [[]]) = rev acc @ os"
  using norm_comps_ordinary [OF assms, of root acc "[]"]
    norm_comps_ordinary [OF assms, of root acc "[[]]"] by simp_all

lemma norm_comps_struct:
  assumes "\<forall>c\<in>set cs. bs \<notin> set c"
    and "acc = rev os @ replicate k ''..''"
    and "\<forall>c\<in>set os. ordinary c"
    and "root \<noteq> [] \<longrightarrow> k = 0"
  shows "\<exists>k' os'. norm_comps root acc cs = replicate k' ''..'' @ os' \<and> (\<forall>c\<in>set os'. ordinary c) \<and>
           (root \<noteq> [] \<longrightarrow> k' = 0)"
  using assms
proof (induction cs arbitrary: acc os k)
  case Nil
  then show ?case by auto
next
  case (Cons c cs)
  from Cons.prems(1) have cs: "\<forall>c\<in>set cs. bs \<notin> set c" and c: "bs \<notin> set c" by auto
  show ?case
  proof (cases "c = [] \<or> c = ''.''")
    case True
    with Cons.IH [OF cs Cons.prems(2,3,4)] show ?thesis by auto
  next
    case False
    show ?thesis
    proof (cases "c = ''..''")
      case dd: True
      show ?thesis
      proof (cases os rule: rev_cases)
        case Nil
        show ?thesis
        proof (cases k)
          case 0
          show ?thesis
          proof (cases "root = []")
            case True
            have "[c] = rev [] @ replicate 1 ''..''" using dd by simp
            from Cons.IH [OF cs this] True have
              "\<exists>k' os'. norm_comps root [c] cs = replicate k' ''..'' @ os' \<and>
                 (\<forall>c\<in>set os'. ordinary c) \<and> (root \<noteq> [] \<longrightarrow> k' = 0)" by simp
            with dd Nil 0 True Cons.prems(2) show ?thesis by simp
          next
            case False
            have "[] = rev [] @ replicate 0 ''..''" by simp
            from Cons.IH [OF cs this] have
              "\<exists>k' os'. norm_comps root [] cs = replicate k' ''..'' @ os' \<and>
                 (\<forall>c\<in>set os'. ordinary c) \<and> (root \<noteq> [] \<longrightarrow> k' = 0)" by simp
            with dd Nil 0 False Cons.prems(2) show ?thesis by simp
          qed
        next
          case (Suc m)
          with Cons.prems(4) have r: "root = []" by auto
          have "c # acc = rev [] @ replicate (Suc k) ''..''"
            using dd Nil Cons.prems(2) by simp
          from Cons.IH [OF cs this] r have
            "\<exists>k' os'. norm_comps root (c # acc) cs = replicate k' ''..'' @ os' \<and>
               (\<forall>c\<in>set os'. ordinary c) \<and> (root \<noteq> [] \<longrightarrow> k' = 0)" by simp
          with dd Nil Suc Cons.prems(2) show ?thesis by simp
        qed
      next
        case (snoc os0 d)
        then have acc: "acc = d # (rev os0 @ replicate k ''..'')"
          using Cons.prems(2) by simp
        from snoc Cons.prems(3) have d: "d \<noteq> ''..''" and os0: "\<forall>c\<in>set os0. ordinary c"
          by (auto simp: ordinary_def)
        from Cons.IH [OF cs refl os0 Cons.prems(4)] have
          "\<exists>k' os'. norm_comps root (rev os0 @ replicate k ''..'') cs = replicate k' ''..'' @ os' \<and>
             (\<forall>c\<in>set os'. ordinary c) \<and> (root \<noteq> [] \<longrightarrow> k' = 0)" .
        with dd acc d show ?thesis by simp
      qed
    next
      case nd: False
      with False c have oc: "ordinary c" by (simp add: ordinary_def)
      have "c # acc = rev (os @ [c]) @ replicate k ''..''" using Cons.prems(2) by simp
      moreover have "\<forall>x\<in>set (os @ [c]). ordinary x" using oc Cons.prems(3) by simp
      ultimately have
        "\<exists>k' os'. norm_comps root (c # acc) cs = replicate k' ''..'' @ os' \<and>
           (\<forall>c\<in>set os'. ordinary c) \<and> (root \<noteq> [] \<longrightarrow> k' = 0)"
        using Cons.IH [OF cs _ _ Cons.prems(4)] by blast
      with False nd show ?thesis by simp
    qed
  qed
qed

lemma normpath_comps:
  "\<exists>k os. norm_comps root [] (split_on bs t) = replicate k ''..'' @ os \<and>
      (\<forall>c\<in>set os. ordinary c) \<and> (root \<noteq> [] \<longrightarrow> k = 0)"
  using norm_comps_struct [of "split_on bs t" "[]" "[]" 0 root] split_on_no_sep [of _ bs t]
  by auto

text \<open>
  The six ways \<open>splitroot\<close> reads a path without \<open>/\<close>, and the form of the result of
  \<open>normpath\<close>.
\<close>

lemma splitroot_drive_root:
  "CHR ''/'' \<notin> set u \<Longrightarrow> c \<noteq> CHR ''/'' \<Longrightarrow> c \<noteq> bs \<Longrightarrow>
   nt_splitroot (c # CHR '':'' # bs # u) = ([c, CHR '':''], sep, u)"
  by (simp add: splitroot_unfold sep_def)

lemma splitroot_drive:
  "CHR ''/'' \<notin> set u \<Longrightarrow> c \<noteq> CHR ''/'' \<Longrightarrow> c \<noteq> bs \<Longrightarrow> take (Suc 0) u \<noteq> sep \<Longrightarrow>
   nt_splitroot (c # CHR '':'' # u) = ([c, CHR '':''], [], u)"
  by (simp add: splitroot_unfold sep_def)

lemma splitroot_rooted:
  "CHR ''/'' \<notin> set u \<Longrightarrow> take (Suc 0) u \<noteq> sep \<Longrightarrow> nt_splitroot (bs # u) = ([], sep, u)"
  by (simp add: splitroot_unfold sep_def)

lemma splitroot_rel:
  "CHR ''/'' \<notin> set p \<Longrightarrow> take (Suc 0) p \<noteq> sep \<Longrightarrow> take (Suc 0) (drop (Suc 0) p) \<noteq> '':'' \<Longrightarrow>
   nt_splitroot p = ([], [], p)"
  by (simp add: splitroot_unfold)

lemma take1_eq: "take (Suc 0) p = [x] \<longleftrightarrow> (\<exists>u. p = x # u)"
  by (cases p) auto

lemma splitroot_cases [consumes 1, case_names unc unc_none rooted drive_root drive rel]:
  assumes "CHR ''/'' \<notin> set p"
  obtains
    (unc) i i2 u where "p = bs # bs # u" "find_from bs (unc_start p) p = Some i"
      "find_from bs (Suc i) p = Some i2" "nt_splitroot p = (take i2 p, sep, drop (Suc i2) p)"
  | (unc_none) u where "p = bs # bs # u" "nt_splitroot p = (p, [], [])"
      "find_from bs (unc_start p) p = None \<or>
       (\<exists>i. find_from bs (unc_start p) p = Some i \<and> find_from bs (Suc i) p = None)"
  | (rooted) u where "p = bs # u" "take (Suc 0) u \<noteq> sep" "nt_splitroot p = ([], sep, u)"
  | (drive_root) c u where "p = c # CHR '':'' # bs # u" "c \<noteq> bs"
      "nt_splitroot p = ([c, CHR '':''], sep, u)"
  | (drive) c u where "p = c # CHR '':'' # u" "c \<noteq> bs" "take (Suc 0) u \<noteq> sep"
      "nt_splitroot p = ([c, CHR '':''], [], u)"
  | (rel) "take (Suc 0) p \<noteq> sep" "take (Suc 0) (drop (Suc 0) p) \<noteq> '':''"
      "nt_splitroot p = ([], [], p)"
proof (cases "take (Suc 0) p = sep")
  case True
  then obtain u where p: "p = bs # u" by (auto simp: take1_eq sep_def)
  show ?thesis
  proof (cases "take (Suc 0) u = sep")
    case False
    with p assms rooted [of u] show ?thesis by (simp add: splitroot_rooted)
  next
    case u: True
    then obtain v where pv: "p = bs # bs # v" using p by (auto simp: take1_eq sep_def)
    show ?thesis
    proof (cases "find_from bs (unc_start p) p")
      case None
      with pv assms unc_none [of v] show ?thesis by (simp add: splitroot_unfold sep_def)
    next
      case (Some i)
      show ?thesis
      proof (cases "find_from bs (Suc i) p")
        case None
        with Some pv assms unc_none [of v] show ?thesis by (simp add: splitroot_unfold sep_def)
      next
        case i2: (Some i2)
        with Some pv assms unc [of v i i2] show ?thesis by (simp add: splitroot_unfold sep_def)
      qed
    qed
  qed
next
  case False
  show ?thesis
  proof (cases "take (Suc 0) (drop (Suc 0) p) = '':''")
    case nc: False
    with False assms rel show ?thesis by (simp add: splitroot_rel)
  next
    case True
    then obtain c u where p: "p = c # CHR '':'' # u" by (cases p) (auto simp: take1_eq)
    with False have c: "c \<noteq> bs" by (simp add: sep_def)
    from p assms have cs: "c \<noteq> CHR ''/''" and us: "CHR ''/'' \<notin> set u" by auto
    show ?thesis
    proof (cases "take (Suc 0) u = sep")
      case t: True
      then obtain v where "u = bs # v" by (auto simp: take1_eq sep_def)
      with p c cs us drive_root [of c v] show ?thesis by (simp add: splitroot_drive_root)
    next
      case f: False
      with p c cs us drive [of c u] show ?thesis by (simp add: splitroot_drive)
    qed
  qed
qed

lemma join_with_Cons:
  "join_with s (x # xs) = x @ (if xs = [] then [] else s @ join_with s xs)"
  by (cases xs) simp_all

lemma normpath_form:
  assumes "nt_splitroot (norm_seps y) = (d0, r0, t0)"
  obtains k os where "\<forall>c\<in>set os. ordinary c" "r0 \<noteq> [] \<longrightarrow> k = 0"
    "nt_normpath y = d0 @ r0 @ join_with sep
       (if d0 @ r0 = [] \<and> k = 0 \<and> os = [] then [''.''] else replicate k ''..'' @ os)"
proof -
  obtain k os where "norm_comps r0 [] (split_on bs t0) = replicate k ''..'' @ os"
    "\<forall>c\<in>set os. ordinary c" "r0 \<noteq> [] \<longrightarrow> k = 0"
    using normpath_comps [of r0 t0] by blast
  with assms that [of os k] show ?thesis
    by (simp add: nt_normpath_def Let_def)
qed

lemma normpath_tail:
  assumes "CHR ''/'' \<notin> set s" "nt_splitroot s = (d, r, join_with sep os @ e)"
    "r \<noteq> []" "os \<noteq> []" "\<forall>c\<in>set os. ordinary c" "e = [] \<or> e = sep"
  shows "nt_normpath s = d @ r @ join_with sep os"
proof -
  from assms(5) have nb: "\<forall>c\<in>set os. bs \<notin> set c" by (simp add: ordinary_def)
  have "split_on bs (join_with sep os @ e) = os \<or> split_on bs (join_with sep os @ e) = os @ [[]]"
    using assms(6) split_join [OF assms(4) nb] split_on_append_sep [of bs "join_with sep os"]
    by (auto simp: sep_def)
  then have "norm_comps r [] (split_on bs (join_with sep os @ e)) = os"
    using norm_comps_ordinary_only [OF assms(5), of r "[]"] by auto
  with assms show ?thesis by (simp add: nt_normpath_def norm_seps_id Let_def)
qed

text \<open>
  A share found by \<open>splitroot\<close> is found again when other text follows its root, and a
  path in which no share is found has no root followed by text after a separator is
  appended to it.
\<close>

lemma upper_char_bs [simp]: "upper_char bs = bs"
  by (simp add: upper_char_def)

lemma unc_prefix_seps:
  assumes "upper (take 8 s) = sep @ sep @ ''?'' @ sep @ ''UNC'' @ sep" "s ! k = bs" "2 \<le> k" "k < 7"
  shows "k = 3"
proof -
  from assms(1) have "length (upper (take 8 s)) = 8" by (simp add: sep_def)
  then have len: "8 \<le> length s" by (simp add: upper_def)
  have "upper (take 8 s) ! k = upper_char (s ! k)"
    using len assms(4) by (simp add: upper_def)
  with assms(1,2) have "(sep @ sep @ ''?'' @ sep @ ''UNC'' @ sep) ! k = bs" by simp
  moreover from assms(3,4) have "k = 2 \<or> k = 3 \<or> k = 4 \<or> k = 5 \<or> k = 6" by arith
  ultimately show ?thesis by (auto simp: sep_def)
qed

lemma unc_start_ge: "2 \<le> unc_start p"
  by (simp add: unc_start_def)

lemma unc_start_append: "unc_start p \<le> unc_start (p @ v)"
proof (cases "upper (take 8 p) = sep @ sep @ ''?'' @ sep @ ''UNC'' @ sep")
  case True
  then have "length (upper (take 8 p)) = 8" by (simp add: sep_def)
  then have "8 \<le> length p" by (simp add: upper_def)
  then have eq: "take 8 (p @ v) = take 8 p" by simp
  show ?thesis unfolding unc_start_def eq using True by simp
next
  case False
  then show ?thesis by (simp add: unc_start_def)
qed

lemma find_from_prefix:
  assumes "find_from c n p = Some i" "take (Suc i) s = take (Suc i) p"
  shows "find_from c n s = Some i"
proof -
  from assms(1) have f: "n \<le> i" "i < length p" "p ! i = c" "\<forall>k. n \<le> k \<and> k < i \<longrightarrow> p ! k \<noteq> c"
    by (simp_all add: find_from_Some_iff)
  have "length (take (Suc i) s) = length (take (Suc i) p)" using assms(2) by simp
  with f(2) have len: "i < length s" by simp
  have nth: "s ! k = p ! k" if "k \<le> i" for k
  proof -
    from that have "k < Suc i" by simp
    then have "take (Suc i) s ! k = s ! k" "take (Suc i) p ! k = p ! k" by simp_all
    with assms(2) show ?thesis by simp
  qed
  from f len nth show ?thesis by (simp add: find_from_Some_iff)
qed

lemma splitroot_unc_found:
  assumes "CHR ''/'' \<notin> set s" "s = bs # bs # w" "find_from bs (unc_start s) s = Some i"
    "find_from bs (Suc i) s = Some i2"
  shows "nt_splitroot s = (take i2 s, sep, drop (Suc i2) s)"
  using assms by (simp add: splitroot_unfold sep_def)

lemma splitroot_unc_stable:
  assumes p: "p = bs # bs # u" and sl: "CHR ''/'' \<notin> set p" "CHR ''/'' \<notin> set v"
    and i: "find_from bs (unc_start p) p = Some i"
    and i2: "find_from bs (Suc i) p = Some i2"
  shows "nt_splitroot (take i2 p @ bs # v) = (take i2 p, sep, v)"
proof -
  let ?s = "take i2 p @ bs # v"
  from i have fi: "unc_start p \<le> i" "i < length p" "p ! i = bs"
    by (simp_all add: find_from_Some_iff)
  from i2 have fi2: "Suc i \<le> i2" "i2 < length p" "p ! i2 = bs"
    by (simp_all add: find_from_Some_iff)
  have len: "length (take i2 p) = i2" using fi2 by simp
  have t2: "take (Suc i2) ?s = take (Suc i2) p"
    using fi2 len by (simp add: take_Suc_conv_app_nth)
  have t1: "take (Suc i) ?s = take (Suc i) p"
    using fi2 by (simp add: min_def)
  have t0: "take 2 ?s = take 2 p"
  proof -
    have "2 \<le> i2" using fi fi2 unc_start_ge [of p] by arith
    with fi2 show ?thesis by (simp add: min_def)
  qed
  with p obtain w where s: "?s = bs # bs # w"
    by (cases ?s; cases "tl ?s") (auto simp: numeral_2_eq_2)
  have st: "unc_start ?s = unc_start p"
  proof (cases "8 \<le> Suc i2")
    case True
    have "take 8 ?s = take 8 (take (Suc i2) ?s)" using True by (simp add: min_def)
    also have "\<dots> = take 8 (take (Suc i2) p)" by (simp only: t2)
    also have "\<dots> = take 8 p" using True by (simp add: min_def)
    finally show ?thesis by (simp add: unc_start_def)
  next
    case False
    then have small: "i2 < 7" by arith
    have up: "unc_start p = 2"
    proof (rule ccontr)
      assume "unc_start p \<noteq> 2"
      then have "unc_start p = 8" by (simp add: unc_start_def split: if_splits)
      with fi fi2 small show False by arith
    qed
    have "unc_start ?s = 2"
    proof (rule ccontr)
      assume "unc_start ?s \<noteq> 2"
      then have pre: "upper (take 8 ?s) = sep @ sep @ ''?'' @ sep @ ''UNC'' @ sep"
        by (simp add: unc_start_def split: if_splits)
      have "?s ! i = bs" using fi fi2 len by (simp add: nth_append)
      moreover have "?s ! i2 = bs" using len by (simp add: nth_append)
      moreover have "2 \<le> i" "i < 7" "2 \<le> i2" using fi fi2 small unc_start_ge [of p] by arith+
      ultimately have "i = 3" "i2 = 3"
        using unc_prefix_seps [OF pre, of i] unc_prefix_seps [OF pre, of i2] small by blast+
      with fi2 show False by simp
    qed
    with up show ?thesis by simp
  qed
  have f1: "find_from bs (unc_start ?s) ?s = Some i"
    using find_from_prefix [OF i t1] st by simp
  have f2: "find_from bs (Suc i) ?s = Some i2"
    using find_from_prefix [OF i2 t2] .
  have sls: "CHR ''/'' \<notin> set ?s" using sl by (auto dest: in_set_takeD)
  have td: "take i2 ?s = take i2 p" "drop (Suc i2) ?s = v" using len by simp_all
  from splitroot_unc_found [OF sls s f1 f2] show ?thesis by (simp only: td)
qed

lemma splitroot_unc_Some:
  assumes "CHR ''/'' \<notin> set s" "s = bs # bs # w" "nt_splitroot s = (d, r, t)" "r \<noteq> []"
  obtains i i2 where "find_from bs (unc_start s) s = Some i" "find_from bs (Suc i) s = Some i2"
    "d = take i2 s" "t = drop (Suc i2) s"
proof (cases "find_from bs (unc_start s) s")
  case None
  with assms show ?thesis by (simp add: splitroot_unfold sep_def)
next
  case (Some i)
  show ?thesis
  proof (cases "find_from bs (Suc i) s")
    case None
    with Some assms show ?thesis by (simp add: splitroot_unfold sep_def)
  next
    case i2: (Some i2)
    with Some assms that [of i i2] show ?thesis by (simp add: splitroot_unfold sep_def)
  qed
qed

lemma splitroot_unc_none_append:
  assumes p: "p = bs # bs # u" and sl: "CHR ''/'' \<notin> set p"
    and none: "find_from bs (unc_start p) p = None \<or>
       (\<exists>i. find_from bs (unc_start p) p = Some i \<and> find_from bs (Suc i) p = None)"
    and sr: "nt_splitroot (p @ sep) = (d, r, t)"
  shows "r = [] \<or> t = []"
proof (rule ccontr)
  assume c: "\<not> (r = [] \<or> t = [])"
  let ?s = "p @ sep"
  have sls: "CHR ''/'' \<notin> set ?s" using sl by (simp add: sep_def)
  have s: "?s = bs # bs # (u @ sep)" using p by simp
  from c have "r \<noteq> []" by simp
  from splitroot_unc_Some [OF sls s sr this]
  obtain i i2 where i: "find_from bs (unc_start ?s) ?s = Some i"
    and i2: "find_from bs (Suc i) ?s = Some i2" and t: "t = drop (Suc i2) ?s"
    by blast
  have dn: "drop (Suc i2) ?s \<noteq> []" using c t by blast
  have "\<not> length ?s \<le> Suc i2"
  proof
    assume "length ?s \<le> Suc i2"
    then have "drop (Suc i2) ?s = []" by (rule drop_all)
    with dn show False by blast
  qed
  then have l2: "i2 < length p" by (simp add: sep_def)
  from i have fi: "unc_start ?s \<le> i" "?s ! i = bs" by (simp_all add: find_from_Some_iff)
  from i2 have fi2: "Suc i \<le> i2" "?s ! i2 = bs" by (simp_all add: find_from_Some_iff)
  from l2 fi2 have pi2: "p ! i2 = bs" and li: "i < length p" by (simp_all add: nth_append)
  with fi have pi: "p ! i = bs" by (simp add: nth_append)
  have ge: "unc_start p \<le> i" using unc_start_append [of p sep] fi by arith
  from none show False
  proof
    assume "find_from bs (unc_start p) p = None"
    with ge li pi show False by (auto simp: find_from_None_iff)
  next
    assume "\<exists>j. find_from bs (unc_start p) p = Some j \<and> find_from bs (Suc j) p = None"
    then obtain j where j: "find_from bs (unc_start p) p = Some j"
      and n: "find_from bs (Suc j) p = None" by blast
    have "j \<le> i"
    proof (rule ccontr)
      assume "\<not> j \<le> i"
      with j ge pi show False by (auto simp: find_from_Some_iff)
    qed
    with fi2 have "Suc j \<le> i2" by arith
    with n l2 pi2 show False by (auto simp: find_from_None_iff)
  qed
qed

text \<open>
  What follows the root of a result of \<open>normpath\<close>, taken with or without a final
  separator, is a sequence of ordinary components; so \<open>normpath\<close> returns such a result
  unchanged, dropping the final separator.
\<close>

lemma join_first:
  assumes "\<forall>c\<in>set os. ordinary c"
    and "take (Suc 0) (join_with sep (replicate k ''..'' @ os) @ e) = sep"
  shows "k = 0 \<and> os = [] \<and> take (Suc 0) e = sep"
proof (cases k)
  case (Suc m)
  with assms(2) show ?thesis by (simp add: join_with_Cons sep_def)
next
  case 0
  show ?thesis
  proof (cases os)
    case Nil
    with 0 assms(2) show ?thesis by simp
  next
    case (Cons c rest)
    with assms(1) obtain x c' where "c = x # c'" "x \<noteq> bs" by (cases c) (auto simp: ordinary_def)
    with 0 Cons assms(2) show ?thesis by (simp add: join_with_Cons sep_def)
  qed
qed

lemma endswith_append_sep: "endswith (x @ sep) sep"
  by (simp add: endswith_def suffix_def)

lemma tail_rooted:
  assumes os: "\<forall>c\<in>set os. ordinary c"
    and a: "a = x @ sep @ join_with sep os"
    and t: "t = join_with sep os @ e" "t \<noteq> []"
    and e: "e = [] \<or> (e = sep \<and> \<not> endswith a sep)"
  shows "\<exists>os. os \<noteq> [] \<and> (\<forall>c\<in>set os. ordinary c) \<and> t = join_with sep os @ e"
proof -
  have "os \<noteq> []"
  proof
    assume n: "os = []"
    with t e have "\<not> endswith a sep" by auto
    moreover from a n have "a = x @ sep" by simp
    ultimately show False using endswith_append_sep [of x] by simp
  qed
  with os t show ?thesis by blast
qed

lemma tail_relative:
  assumes os: "\<forall>c\<in>set (c # rest). ordinary c"
    and sl: "CHR ''/'' \<notin> set (join_with sep (c # rest) @ e)"
    and sr: "nt_splitroot (join_with sep (c # rest) @ e) = (d, r, t)"
    and ne: "d \<noteq> []" "r \<noteq> []" "t \<noteq> []"
    and e: "e = [] \<or> e = sep"
  shows "rest \<noteq> [] \<and> t = join_with sep rest @ e"
proof -
  from os obtain x c' where c: "c = x # c'" "x \<noteq> bs" "bs \<notin> set c'"
    by (cases c) (auto simp: ordinary_def)
  let ?X = "(if rest = [] then [] else sep @ join_with sep rest) @ e"
  have s: "join_with sep (c # rest) @ e = x # c' @ ?X"
    using c by (simp add: join_with_Cons)
  have X1: "take (Suc 0) ?X \<noteq> '':''" using e by (auto simp: sep_def)
  show ?thesis
  proof (cases c')
    case Nil
    with s X1 have "take (Suc 0) (join_with sep (c # rest) @ e) \<noteq> sep"
      "take (Suc 0) (drop (Suc 0) (join_with sep (c # rest) @ e)) \<noteq> '':''"
      using c by (simp_all add: sep_def)
    from splitroot_rel [OF sl this] sr ne show ?thesis by simp
  next
    case (Cons z c'')
    show ?thesis
    proof (cases "z = CHR '':''")
      case False
      with s Cons have "take (Suc 0) (join_with sep (c # rest) @ e) \<noteq> sep"
        "take (Suc 0) (drop (Suc 0) (join_with sep (c # rest) @ e)) \<noteq> '':''"
        using c by (simp_all add: sep_def)
      from splitroot_rel [OF sl this] sr ne show ?thesis by simp
    next
      case True
      have s': "join_with sep (c # rest) @ e = x # CHR '':'' # c'' @ ?X"
        using s Cons True by simp
      from sl s' have xs: "x \<noteq> CHR ''/''" and us: "CHR ''/'' \<notin> set (c'' @ ?X)"
        by auto
      show ?thesis
      proof (cases "take (Suc 0) (c'' @ ?X) = sep")
        case f: False
        from splitroot_drive [OF us xs c(2) f] sr ne s' show ?thesis by simp
      next
        case t: True
        have c''n: "c'' = []"
        proof (cases c'')
          case Nil
          then show ?thesis .
        next
          case (Cons w c3)
          with t c(3) \<open>c' = z # c''\<close> show ?thesis by (simp add: sep_def)
        qed
        show ?thesis
        proof (cases "rest = []")
          case r: True
          with t c''n e have e': "e = sep" by auto
          with r c''n s' have "join_with sep (c # rest) @ e = x # CHR '':'' # bs # []"
            by (simp add: sep_def)
          with splitroot_drive_root [of "[]" x] xs c(2) sr ne show ?thesis by simp
        next
          case r: False
          with c''n s' have "join_with sep (c # rest) @ e =
              x # CHR '':'' # bs # (join_with sep rest @ e)"
            by (simp add: sep_def)
          moreover have "CHR ''/'' \<notin> set (join_with sep rest @ e)"
            using us r c''n by (simp add: sep_def)
          ultimately have "t = join_with sep rest @ e"
            using splitroot_drive_root [of "join_with sep rest @ e" x] xs c(2) sr by simp
          with r show ?thesis by simp
        qed
      qed
    qed
  qed
qed

lemma normpath_output_tail:
  assumes a: "a = nt_normpath y" and sl: "CHR ''/'' \<notin> set (a @ e)"
    and sr: "nt_splitroot (a @ e) = (d, r, t)"
    and ne: "d \<noteq> []" "r \<noteq> []" "t \<noteq> []"
    and e: "e = [] \<or> (e = sep \<and> \<not> endswith a sep)"
  shows "\<exists>os. os \<noteq> [] \<and> (\<forall>c\<in>set os. ordinary c) \<and> t = join_with sep os @ e"
proof -
  have sly: "CHR ''/'' \<notin> set (norm_seps y)" by simp
  from e have e': "e = [] \<or> e = sep" by blast
  from sly show ?thesis
  proof (cases rule: splitroot_cases)
    case (unc i i2 u)
    obtain k os where os: "\<forall>c\<in>set os. ordinary c" and k: "sep \<noteq> [] \<longrightarrow> k = 0"
      and f: "nt_normpath y = take i2 (norm_seps y) @ sep @ join_with sep
         (if take i2 (norm_seps y) @ sep = [] \<and> k = 0 \<and> os = [] then [''.'']
          else replicate k ''..'' @ os)"
      by (rule normpath_form [OF unc(4)])
    from k have k0: "k = 0" by (simp add: sep_def)
    have f': "a = take i2 (norm_seps y) @ sep @ join_with sep os"
      using f a k0 by (simp add: sep_def)
    then have ae: "a @ e = take i2 (norm_seps y) @ bs # (join_with sep os @ e)"
      by (simp add: sep_def)
    with sl have "CHR ''/'' \<notin> set (join_with sep os @ e)" by simp
    from splitroot_unc_stable [OF unc(1) sly this unc(2) unc(3)] sr ae
    have "t = join_with sep os @ e" by simp
    from tail_rooted [OF os f' this ne(3) e] show ?thesis .
  next
    case (unc_none u)
    have an: "a = norm_seps y"
      using a unc_none(1,2) by (simp add: nt_normpath_def Let_def)
    from e' show ?thesis
    proof
      assume "e = []"
      with sr an unc_none(2) ne show ?thesis by simp
    next
      assume es: "e = sep"
      with sr an have "nt_splitroot (norm_seps y @ sep) = (d, r, t)" by simp
      from splitroot_unc_none_append [OF unc_none(1) sly unc_none(3) this] ne
      show ?thesis by blast
    qed
  next
    case (rooted u)
    obtain k os where os: "\<forall>c\<in>set os. ordinary c" and k: "sep \<noteq> [] \<longrightarrow> k = 0"
      and f: "nt_normpath y = [] @ sep @ join_with sep
         (if [] @ sep = [] \<and> k = 0 \<and> os = [] then [''.''] else replicate k ''..'' @ os)"
      by (rule normpath_form [OF rooted(3)])
    from k have k0: "k = 0" by (simp add: sep_def)
    have f': "a = [] @ sep @ join_with sep os"
      using f a k0 by (simp add: sep_def)
    then have ae: "a @ e = bs # (join_with sep os @ e)" by (simp add: sep_def)
    with sl have sl': "CHR ''/'' \<notin> set (join_with sep os @ e)" by simp
    show ?thesis
    proof (cases "take (Suc 0) (join_with sep os @ e) = sep")
      case False
      from splitroot_rooted [OF sl' False] sr ae ne show ?thesis by simp
    next
      case True
      with join_first [OF os, of 0 e] have "os = []" "take (Suc 0) e = sep" by simp_all
      moreover from this have "e \<noteq> []" by (auto simp: sep_def)
      ultimately have "\<not> endswith a sep" "a = [] @ sep" using e f' by auto
      with endswith_append_sep [of "[]"] show ?thesis by simp
    qed
  next
    case (drive_root c u)
    obtain k os where os: "\<forall>c\<in>set os. ordinary c" and k: "sep \<noteq> [] \<longrightarrow> k = 0"
      and f: "nt_normpath y = [c, CHR '':''] @ sep @ join_with sep
         (if [c, CHR '':''] @ sep = [] \<and> k = 0 \<and> os = [] then [''.'']
          else replicate k ''..'' @ os)"
      by (rule normpath_form [OF drive_root(3)])
    from k have k0: "k = 0" by (simp add: sep_def)
    have f': "a = [c, CHR '':''] @ sep @ join_with sep os"
      using f a k0 by simp
    then have ae: "a @ e = c # CHR '':'' # bs # (join_with sep os @ e)" by (simp add: sep_def)
    with sl have "CHR ''/'' \<notin> set (join_with sep os @ e)" "c \<noteq> CHR ''/''" by auto
    from splitroot_drive_root [OF this drive_root(2)] sr ae
    have "t = join_with sep os @ e" by simp
    from tail_rooted [OF os f' this ne(3) e] show ?thesis .
  next
    case (drive c u)
    obtain k os where os: "\<forall>c\<in>set os. ordinary c" and "([]::string) \<noteq> [] \<longrightarrow> k = 0"
      and f: "nt_normpath y = [c, CHR '':''] @ [] @ join_with sep
         (if [c, CHR '':''] @ [] = [] \<and> k = 0 \<and> os = [] then [''.'']
          else replicate k ''..'' @ os)"
      by (rule normpath_form [OF drive(4)])
    let ?w = "join_with sep (replicate k ''..'' @ os)"
    have ae: "a @ e = c # CHR '':'' # (?w @ e)" using f a by simp
    with sl have sl': "CHR ''/'' \<notin> set (?w @ e)" "c \<noteq> CHR ''/''" by auto
    show ?thesis
    proof (cases "take (Suc 0) (?w @ e) = sep")
      case False
      from splitroot_drive [OF sl' drive(2) False] sr ae ne show ?thesis by simp
    next
      case True
      with join_first [OF os, of k e] have "k = 0" "os = []" "take (Suc 0) e = sep" by simp_all
      with e' ae have "a @ e = c # CHR '':'' # bs # []" by (auto simp: sep_def)
      with splitroot_drive_root [of "[]" c] sl'(2) drive(2) sr ne show ?thesis by simp
    qed
  next
    case rel
    obtain k os where os: "\<forall>c\<in>set os. ordinary c" and "([]::string) \<noteq> [] \<longrightarrow> k = 0"
      and f: "nt_normpath y = [] @ [] @ join_with sep
         (if ([]::string) @ [] = [] \<and> k = 0 \<and> os = [] then [''.''] else replicate k ''..'' @ os)"
      by (rule normpath_form [OF rel(3)])
    show ?thesis
    proof (cases "k = 0")
      case False
      then obtain m where "k = Suc m" by (cases k) auto
      with f a have "a @ e = CHR ''.'' # CHR ''.'' #
          (if replicate m ''..'' @ os = [] then [] else sep @ join_with sep (replicate m ''..'' @ os)) @ e"
        by (simp add: join_with_Cons)
      then have "take (Suc 0) (a @ e) \<noteq> sep" "take (Suc 0) (drop (Suc 0) (a @ e)) \<noteq> '':''"
        by (simp_all add: sep_def)
      from splitroot_rel [OF sl this] sr ne show ?thesis by simp
    next
      case k0: True
      show ?thesis
      proof (cases os)
        case Nil
        with k0 f a have "a @ e = CHR ''.'' # e" by simp
        with e' have "take (Suc 0) (a @ e) \<noteq> sep" "take (Suc 0) (drop (Suc 0) (a @ e)) \<noteq> '':''"
          by (auto simp: sep_def)
        from splitroot_rel [OF sl this] sr ne show ?thesis by simp
      next
        case (Cons c rest)
        with k0 f a have aj: "a = join_with sep (c # rest)" by simp
        from os Cons have os': "\<forall>x\<in>set (c # rest). ordinary x" by simp
        from tail_relative [OF os' _ _ ne e', of ] sl sr aj
        have "rest \<noteq> [] \<and> t = join_with sep rest @ e" by simp
        moreover from os' have "\<forall>x\<in>set rest. ordinary x" by simp
        ultimately show ?thesis by blast
      qed
    qed
  qed
qed

lemma normpath_stable:
  assumes a: "a = nt_normpath y" and sl: "CHR ''/'' \<notin> set (a @ e)"
    and sr: "nt_splitroot (a @ e) = (d, r, t)"
    and ne: "d \<noteq> []" "r \<noteq> []" "t \<noteq> []"
    and e: "e = [] \<or> (e = sep \<and> \<not> endswith a sep)"
  shows "nt_normpath (a @ e) = a"
proof -
  from normpath_output_tail [OF a sl sr ne e] obtain os where os: "os \<noteq> []"
    "\<forall>c\<in>set os. ordinary c" and t: "t = join_with sep os @ e" by blast
  from e have e': "e = [] \<or> e = sep" by blast
  from sr t have sr': "nt_splitroot (a @ e) = (d, r, join_with sep os @ e)" by simp
  from normpath_tail [OF sl sr' ne(2) os e'] have "nt_normpath (a @ e) = d @ r @ join_with sep os" .
  moreover from splitroot_append [OF sr'] have "(d @ r @ join_with sep os) @ e = a @ e" by simp
  then have "d @ r @ join_with sep os = a" by (simp only: append_same_eq)
  ultimately show ?thesis by simp
qed

text \<open>
  The two normalizers on their own absolute results.
\<close>

lemma abspath_nt_env [simp]: "abspath (nt_env cwd) = nt_abspath cwd"
  by (simp add: nt_env_def)

lemma abspath_absolute: "absolute_path q \<Longrightarrow> nt_abspath cwd q = nt_normpath q"
  by (simp add: nt_abspath_def join_absolute)

lemma abspath_lower_normpath: "lower (nt_abspath cwd p) = nt_normpath (lower (nt_join cwd p))"
  by (simp add: nt_abspath_def normpath_lower)

lemma normalize_dir_path_absolute:
  assumes n: "normalize_dir_path (nt_env cwd) p = Inr q"
    and ab: "absolute_path q" and nr: "\<not> root_path q"
  shows "normalize_dir_path (nt_env cwd) q = Inr q"
proof -
  let ?a = "lower (nt_abspath cwd p)"
  from n have q: "q = ?a @ sep" and ok: "\<not> contains altsep (nt_abspath cwd p)"
      "\<not> endswith (nt_abspath cwd p) sep"
    by (auto simp: normalize_dir_path_def Let_def split: if_splits)
  obtain d r t where sr: "nt_splitroot (?a @ sep) = (d, r, t)"
    by (cases "nt_splitroot (?a @ sep)") auto
  with ab nr q have ne: "d \<noteq> []" "r \<noteq> []" "t \<noteq> []"
    by (simp_all add: absolute_path_def root_path_def)
  from ok have sl: "CHR ''/'' \<notin> set (?a @ sep)"
    by (simp add: altsep_def contains_char slash_in_lower sep_def)
  from ok have e: "sep = [] \<or> (sep = sep \<and> \<not> endswith ?a sep)" by simp
  from normpath_stable [OF abspath_lower_normpath sl sr ne e]
  have "nt_normpath (?a @ sep) = ?a" .
  with ab q have "nt_abspath cwd q = ?a" by (simp add: abspath_absolute)
  with ok q show ?thesis by (simp add: normalize_dir_path_def)
qed

lemma normalize_file_path_absolute:
  assumes n: "normalize_file_path (nt_env cwd) p = Inr q"
    and ab: "absolute_path q" and ns: "\<not> endswith q sep"
  shows "normalize_file_path (nt_env cwd) q = Inr q"
proof -
  let ?a = "lower (nt_abspath cwd p)"
  from n have q: "q = ?a" and ok: "\<not> contains altsep (nt_abspath cwd p)"
    by (auto simp: normalize_file_path_def Let_def split: if_splits)
  obtain d r t where sr: "nt_splitroot (?a @ []) = (d, r, t)"
    by (cases "nt_splitroot (?a @ [])") auto
  from ok have sl: "CHR ''/'' \<notin> set (?a @ [])"
    by (simp add: altsep_def contains_char slash_in_lower)
  from sr ab q have ne: "d \<noteq> []" "r \<noteq> []" by (simp_all add: absolute_path_def)
  have t: "t \<noteq> []"
  proof
    assume "t = []"
    with splitroot_append [OF sr] have "?a = d @ r" by simp
    moreover from splitroot_root_sep [OF sl sr] ne have "r = sep" by simp
    ultimately have "endswith ?a sep" using endswith_append_sep [of d] by simp
    with ns q show False by simp
  qed
  have e: "[] = [] \<or> ([] = sep \<and> \<not> endswith ?a sep)" by simp
  from normpath_stable [OF abspath_lower_normpath sl sr ne t e]
  have "nt_normpath ?a = ?a" by simp
  with ab q have ap: "nt_abspath cwd q = q" by (simp add: abspath_absolute)
  from ok q have "\<not> endswith q altsep"
    using endswith_altsep_contains [of "nt_abspath cwd p"] by auto
  with ns ap ok q show ?thesis by (simp add: normalize_file_path_def)
qed

lemma normalize_file_path_rejects_separator:
  "endswith q sep \<Longrightarrow> normalize_file_path env q = Inl AssertionError"
  by (simp add: normalize_file_path_def)

text \<open>
  Claim C5, as the code has it, on the Windows path functions. Let \<open>q\<close> be the result
  of a normalizer on a path it accepts. If \<open>q\<close> is absolute and not a root,
  \<open>normalize_dir_path(q)\<close> is \<open>q\<close> again. If \<open>q\<close> is absolute and does not end with the
  separator, \<open>normalize_file_path(q)\<close> is \<open>q\<close> again. If \<open>q\<close> ends with the separator,
  \<open>normalize_file_path\<close> rejects \<open>q\<close>, whatever the platform.
\<close>

theorem normalization_idempotent_on_absolute_paths:
  "(normalize_dir_path (nt_env cwd) p = Inr q \<and> absolute_path q \<and> \<not> root_path q \<longrightarrow>
      normalize_dir_path (nt_env cwd) q = Inr q) \<and>
   (normalize_file_path (nt_env cwd) p = Inr q \<and> absolute_path q \<and> \<not> endswith q sep \<longrightarrow>
      normalize_file_path (nt_env cwd) q = Inr q) \<and>
   (normalize_file_path env p = Inr q \<and> endswith q sep \<longrightarrow>
      normalize_file_path env q = Inl AssertionError)"
  using normalize_dir_path_absolute [of cwd p q] normalize_file_path_absolute [of cwd p q]
    normalize_file_path_rejects_separator [of q env]
  by blast

text \<open>
  Claim C5 as stated fails for files: \<open>normalize_file_path\<close> accepts \<open>c:\.\<close> and returns
  the drive root \<open>c:\\<close>, which ends with the separator, and it rejects that output at
  its first assertion.
\<close>

theorem file_normalizer_rejects_own_output:
  "normalize_file_path example_env (''c:'' @ sep @ ''.'') = Inr (''c:'' @ sep) \<and>
   normalize_file_path example_env (''c:'' @ sep) = Inl AssertionError"
  by code_simp

text \<open>
  A root is excluded for directories too: the root of a network share keeps its final
  separator, so the normalized form of \<open>\\srv\share\<close> is rejected by the second
  normalization.
\<close>

lemma share_root_keeps_separator:
  "normalize_dir_path example_env (sep @ sep @ ''srv'' @ sep @ ''share'') =
     Inr (sep @ sep @ ''srv'' @ sep @ ''share'' @ sep) \<and>
   abspath example_env (sep @ sep @ ''srv'' @ sep @ ''share'' @ sep) =
     sep @ sep @ ''srv'' @ sep @ ''share'' @ sep \<and>
   normalize_dir_path example_env (sep @ sep @ ''srv'' @ sep @ ''share'' @ sep) =
     Inl AssertionError"
  by code_simp

text \<open>
  The hypotheses of the amended claim C5 hold for a mod directory and a plugin file on
  drive \<open>c:\<close>, and for the drive root that \<open>normalize_file_path\<close> returns for the parent
  of a top-level directory.
\<close>

theorem normalization_idempotent_witness:
  "normalize_dir_path example_env (''c:'' @ sep @ ''Mods'' @ sep @ ''Foo'') =
     Inr (''c:'' @ sep @ ''mods'' @ sep @ ''foo'' @ sep) \<and>
   absolute_path (''c:'' @ sep @ ''mods'' @ sep @ ''foo'' @ sep) \<and>
   \<not> root_path (''c:'' @ sep @ ''mods'' @ sep @ ''foo'' @ sep) \<and>
   normalize_dir_path example_env (''c:'' @ sep @ ''mods'' @ sep @ ''foo'' @ sep) =
     Inr (''c:'' @ sep @ ''mods'' @ sep @ ''foo'' @ sep) \<and>
   normalize_file_path example_env (''c:'' @ sep @ ''Mods'' @ sep @ ''Foo.ESP'') =
     Inr (''c:'' @ sep @ ''mods'' @ sep @ ''foo.esp'') \<and>
   absolute_path (''c:'' @ sep @ ''mods'' @ sep @ ''foo.esp'') \<and>
   \<not> endswith (''c:'' @ sep @ ''mods'' @ sep @ ''foo.esp'') sep \<and>
   normalize_file_path example_env (''c:'' @ sep @ ''mods'' @ sep @ ''foo.esp'') =
     Inr (''c:'' @ sep @ ''mods'' @ sep @ ''foo.esp'') \<and>
   normalize_file_path example_env (''c:'' @ sep @ ''Mods'' @ sep @ ''..'') = Inr (''c:'' @ sep) \<and>
   endswith (''c:'' @ sep) sep \<and>
   normalize_file_path example_env (''c:'' @ sep) = Inl AssertionError"
proof -
  let ?d = "''c:'' @ sep @ ''mods'' @ sep @ ''foo'' @ sep"
  let ?f = "''c:'' @ sep @ ''mods'' @ sep @ ''foo.esp''"
  let ?r = "''c:'' @ sep"
  have 1: "normalize_dir_path (nt_env example_cwd) (''c:'' @ sep @ ''Mods'' @ sep @ ''Foo'') = Inr ?d"
    by code_simp
  have 2: "absolute_path ?d" by code_simp
  have 3: "\<not> root_path ?d" by code_simp
  have 4: "normalize_file_path (nt_env example_cwd) (''c:'' @ sep @ ''Mods'' @ sep @ ''Foo.ESP'') = Inr ?f"
    by code_simp
  have 5: "absolute_path ?f" by code_simp
  have 6: "\<not> endswith ?f sep" by code_simp
  have 7: "normalize_file_path (nt_env example_cwd) (''c:'' @ sep @ ''Mods'' @ sep @ ''..'') = Inr ?r"
    by code_simp
  have 8: "endswith ?r sep" by code_simp
  note td = normalization_idempotent_on_absolute_paths
    [of example_cwd "''c:'' @ sep @ ''Mods'' @ sep @ ''Foo''" ?d]
  note tf = normalization_idempotent_on_absolute_paths
    [of example_cwd "''c:'' @ sep @ ''Mods'' @ sep @ ''Foo.ESP''" ?f]
  note tr = normalization_idempotent_on_absolute_paths
    [of example_cwd "''c:'' @ sep @ ''Mods'' @ sep @ ''..''" ?r "nt_env example_cwd"]
  from conjunct1 [OF td] 1 2 3 have 9: "normalize_dir_path (nt_env example_cwd) ?d = Inr ?d"
    by blast
  from conjunct1 [OF conjunct2 [OF tf]] 4 5 6
  have 10: "normalize_file_path (nt_env example_cwd) ?f = Inr ?f" by blast
  from conjunct2 [OF conjunct2 [OF tr]] 7 8
  have 11: "normalize_file_path (nt_env example_cwd) ?r = Inl AssertionError" by blast
  from 1 2 3 4 5 6 7 8 9 10 11 show ?thesis unfolding example_env_def by blast
qed





lemma Folders_init_success:
  assumes "Folders_init env fname cfg = Some (Inr f)"
  shows "\<exists>cd dds oms. init_roots env fname cfg = Some (Inr (cd, mo2_dir f, dds)) \<and>
           init_ignores env (mo2_dir f) cfg = Inr (ignore_dirs f) \<and>
           iterate_json (config_get cfg ''ownmods'' (JList [])) = Inr oms \<and>
           map_sum_list normalize_file_name_json oms = Inr (own_mod_names f)"
  using assms
  by (auto simp: Folders_init_def bind_res_def lift_sum_def split: option.splits sum.splits)


lemma config_dir_path_done:
  assumes "normalize_config_dir_path env path configdir = Inr n"
    and "spec_no_substitution configdir config n"
  shows "config_dir_path env path configdir config = Some (Inr n)"
  using config_dir_path_unfold [OF assms(1), of config] assms(2) by simp

lemma init_roots_default_downloads:
  assumes "normalize_dir_path env (split_head env fname) = Inr cd"
    and "map_of cfg ''mo2'' = Some (JStr mo2)"
    and "config_dir_path env mo2 cd cfg = Some (Inr m)"
    and "map_of cfg ''downloads'' = None"
    and "config_dir_path env (m @ ''downloads'' @ sep) cd cfg = Some (Inr dl)"
  shows "init_roots env fname cfg = Some (Inr (cd, m, [dl]))"
  using assms
  by (simp add: init_roots_def bind_res_def lift_sum_def abort_if_not_def is_str_def is_list_def
        config_dir_path_json_def)

lemma Folders_init_defaults:
  assumes "init_roots env fname cfg = Some (Inr (cd, m, dds))"
    and "init_ignores env m cfg = Inr igs"
    and "map_of cfg ''cache'' = None"
    and "config_dir_path env (cd @ ''..'' @ sep @ ''sanguine.cache'' @ sep) cd cfg = Some (Inr cache)"
    and "map_of cfg ''tmp'' = None"
    and "config_dir_path env (cd @ ''..'' @ sep @ ''sanguine.tmp'' @ sep) cd cfg = Some (Inr tmp)"
    and "map_of cfg ''github'' = None"
    and "config_dir_path env cd cd cfg = Some (Inr github)"
    and "map_of cfg ''ownmods'' = Some (JList oms)"
    and "map_sum_list normalize_file_name_json oms = Inr names"
  shows "Folders_init env fname cfg =
    Some (Inr \<lparr>config_dir = cd, mo2_dir = m, download_dirs = dds, ignore_dirs = igs,
                cache_dir = cache, tmp_dir = tmp, github_dir = github, own_mod_names = names\<rparr>)"
  using assms
  by (simp add: Folders_init_def bind_res_def lift_sum_def config_get_def config_dir_path_json_def
        iterate_json_def)




lemma not_normalized_without_sep:
  "\<not> endswith out sep \<Longrightarrow> \<not> is_normalized_dir_path env out"
  by (auto simp: is_normalized_dir_path_def endswith_def suffix_def)

text \<open>
  Claim C7, what the code does. With \<open>ownmods\<close> equal to \<open>["MyPatch"]\<close> a completed
  object has \<open>own_mod_names = ["mypatch"]\<close>. The enumerator computes \<open>mo2_dir + "mypatch"\<close>,
  without a final separator: this is not \<open>mo2_dir + "mypatch" + separator\<close>, it is not a
  normalized directory path, and the enumerator's own assertion fails before anything is
  yielded.
\<close>

theorem own_mod_dirs_enumerator_raises:
  assumes "Folders_init env fname cfg = Some (Inr f)"
    and "config_get cfg ''ownmods'' (JList []) = JList [JStr ''MyPatch'']"
  shows "own_mod_names f = [''mypatch''] \<and>
         mo2_dir f @ ''mypatch'' \<noteq> mo2_dir f @ ''mypatch'' @ sep \<and>
         \<not> is_normalized_dir_path env (mo2_dir f @ ''mypatch'') \<and>
         all_mo2_own_mod_dirs env f = ([], Some AssertionError)"
proof -
  from Folders_init_success [OF assms(1)] assms(2)
  have "map_sum_list normalize_file_name_json [JStr ''MyPatch''] = Inr (own_mod_names f)"
    by (auto simp: iterate_json_def)
  moreover have "normalize_file_name ''MyPatch'' = Inr ''mypatch''"
    by code_simp
  ultimately have names: "own_mod_names f = [''mypatch'']"
    by (simp add: normalize_file_name_json_def)
  have "\<not> endswith (mo2_dir f @ ''mypatch'') sep"
    by (simp add: endswith_def sep_def suffix_def)
  then have nn: "\<not> is_normalized_dir_path env (mo2_dir f @ ''mypatch'')"
    by (rule not_normalized_without_sep)
  with names show ?thesis
    by (simp add: all_mo2_own_mod_dirs_def sep_def)
qed

lemma ownmods_init:
  "Folders_init example_env example_fname ownmods_config =
     Some (Inr \<lparr>config_dir = ''c:'' @ sep @ ''cfg'' @ sep,
                mo2_dir = ''c:'' @ sep @ ''mo2'' @ sep,
                download_dirs = [''c:'' @ sep @ ''mo2'' @ sep @ ''downloads'' @ sep],
                ignore_dirs =
                  [''c:'' @ sep @ ''mo2'' @ sep @ ''plugins'' @ sep @ ''data'' @ sep @ ''rootbuilder'' @ sep,
                   ''c:'' @ sep @ ''mo2'' @ sep @ ''crashdumps'' @ sep,
                   ''c:'' @ sep @ ''mo2'' @ sep @ ''logs'' @ sep,
                   ''c:'' @ sep @ ''mo2'' @ sep @ ''webcache'' @ sep,
                   ''c:'' @ sep @ ''mo2'' @ sep @ ''overwrite'' @ sep @ ''root'' @ sep @ ''logs'' @ sep,
                   ''c:'' @ sep @ ''mo2'' @ sep @ ''overwrite'' @ sep @ ''shadercache'' @ sep],
                cache_dir = ''c:'' @ sep @ ''sanguine.cache'' @ sep,
                tmp_dir = ''c:'' @ sep @ ''sanguine.tmp'' @ sep,
                github_dir = ''c:'' @ sep @ ''cfg'' @ sep,
                own_mod_names = [''mypatch'']\<rparr>)"
proof -
  let ?cd = "''c:'' @ sep @ ''cfg'' @ sep"
  let ?m = "''c:'' @ sep @ ''mo2'' @ sep"
  let ?dl = "''c:'' @ sep @ ''mo2'' @ sep @ ''downloads'' @ sep"
  let ?cache = "''c:'' @ sep @ ''sanguine.cache'' @ sep"
  let ?tmp = "''c:'' @ sep @ ''sanguine.tmp'' @ sep"
  have 1: "normalize_dir_path example_env (split_head example_env example_fname) = Inr ?cd"
    by code_simp
  have 2: "map_of ownmods_config ''mo2'' = Some (JStr (''c:'' @ sep @ ''MO2''))"
    by code_simp
  have "normalize_config_dir_path example_env (''c:'' @ sep @ ''MO2'') ?cd = Inr ?m"
    and "spec_no_substitution ?cd ownmods_config ?m"
    by code_simp+
  then have 3: "config_dir_path example_env (''c:'' @ sep @ ''MO2'') ?cd ownmods_config = Some (Inr ?m)"
    by (rule config_dir_path_done)
  have 4: "map_of ownmods_config ''downloads'' = None"
    by code_simp
  have "normalize_config_dir_path example_env (?m @ ''downloads'' @ sep) ?cd = Inr ?dl"
    and "spec_no_substitution ?cd ownmods_config ?dl"
    by code_simp+
  then have 5: "config_dir_path example_env (?m @ ''downloads'' @ sep) ?cd ownmods_config = Some (Inr ?dl)"
    by (rule config_dir_path_done)
  note roots = init_roots_default_downloads [OF 1 2 3 4 5]
  have ign: "init_ignores example_env ?m ownmods_config =
     Inr [''c:'' @ sep @ ''mo2'' @ sep @ ''plugins'' @ sep @ ''data'' @ sep @ ''rootbuilder'' @ sep,
                   ''c:'' @ sep @ ''mo2'' @ sep @ ''crashdumps'' @ sep,
                   ''c:'' @ sep @ ''mo2'' @ sep @ ''logs'' @ sep,
                   ''c:'' @ sep @ ''mo2'' @ sep @ ''webcache'' @ sep,
                   ''c:'' @ sep @ ''mo2'' @ sep @ ''overwrite'' @ sep @ ''root'' @ sep @ ''logs'' @ sep,
                   ''c:'' @ sep @ ''mo2'' @ sep @ ''overwrite'' @ sep @ ''shadercache'' @ sep]"
    by code_simp
  have none: "map_of ownmods_config ''cache'' = None" "map_of ownmods_config ''tmp'' = None"
    "map_of ownmods_config ''github'' = None"
    by code_simp+
  have "normalize_config_dir_path example_env (?cd @ ''..'' @ sep @ ''sanguine.cache'' @ sep) ?cd = Inr ?cache"
    and "spec_no_substitution ?cd ownmods_config ?cache"
    by code_simp+
  then have 6: "config_dir_path example_env (?cd @ ''..'' @ sep @ ''sanguine.cache'' @ sep) ?cd ownmods_config
      = Some (Inr ?cache)"
    by (rule config_dir_path_done)
  have "normalize_config_dir_path example_env (?cd @ ''..'' @ sep @ ''sanguine.tmp'' @ sep) ?cd = Inr ?tmp"
    and "spec_no_substitution ?cd ownmods_config ?tmp"
    by code_simp+
  then have 7: "config_dir_path example_env (?cd @ ''..'' @ sep @ ''sanguine.tmp'' @ sep) ?cd ownmods_config
      = Some (Inr ?tmp)"
    by (rule config_dir_path_done)
  have "normalize_config_dir_path example_env ?cd ?cd = Inr ?cd"
    and "spec_no_substitution ?cd ownmods_config ?cd"
    by code_simp+
  then have 8: "config_dir_path example_env ?cd ?cd ownmods_config = Some (Inr ?cd)"
    by (rule config_dir_path_done)
  have 9: "map_of ownmods_config ''ownmods'' = Some (JList [JStr ''MyPatch''])"
    by code_simp
  have 10: "map_sum_list normalize_file_name_json [JStr ''MyPatch''] = Inr [''mypatch'']"
    by code_simp
  show ?thesis
    by (rule Folders_init_defaults [OF roots ign none(1) 6 none(2) 7 none(3) 8 9 10])
qed

text \<open>The run of claim C7 on the platform, with the mod-root \<open>c:\MO2\<close>.\<close>

theorem own_mod_dirs_witness:
  "config_get ownmods_config ''ownmods'' (JList []) = JList [JStr ''MyPatch''] \<and>
   (case Folders_init example_env example_fname ownmods_config of
      Some (Inr f) \<Rightarrow>
        own_mod_names f = [''mypatch''] \<and> mo2_dir f = ''c:'' @ sep @ ''mo2'' @ sep \<and>
        all_mo2_own_mod_dirs example_env f = ([], Some AssertionError)
    | _ \<Rightarrow> False)"
proof -
  have 1: "config_get ownmods_config ''ownmods'' (JList []) = JList [JStr ''MyPatch'']"
    by code_simp
  from own_mod_dirs_enumerator_raises [OF ownmods_init 1] 1 show ?thesis
    by (simp add: ownmods_init)
qed

end
